theory Spec2Isabelle
  imports Main "HOL-Library.Word"
begin

section \<open>Data model of the scheduler simulator\<close>

text \<open>
  The simulator keeps process control blocks (\<open>pcb_t\<close>) in queues and in one CPU slot.
  The declarations of \<open>pcb_t\<close>, \<open>queue_t\<close>, \<open>msg_t\<close> and of the constant \<open>TICKS_MS\<close> live
  in \<open>queue.h\<close> and \<open>msg.h\<close>, which are not among the sources; the fields below are the ones
  the schedulers and the admission of a \<open>RUN\<close> request read and write. The clock is
  \<open>uint32_t\<close> in every scheduler signature, and the time fields are printed with \<open>%u\<close> and
  compared with it, so every time value is a 32-bit word: \<open>+\<close> and \<open>-\<close> wrap around, \<open>\<le>\<close>
  and \<open><\<close> are unsigned. \<open>priority_level\<close> indexes the array of tiers; it is set to 0 on
  admission and incremented only below \<open>NUM_QUEUES - 1\<close>, and is a natural number here.
\<close>

type_synonym u32 = "32 word"

text \<open>
  Modelled from the spec: the enumeration of the \<open>status\<close> field (declared in \<open>queue.h\<close>).
  The sources use \<open>TASK_COMMAND\<close>, \<open>TASK_RUNNING\<close> and \<open>TASK_BLOCKED\<close>; the spec (section 3)
  names the lifecycle states Ready, Running and Blocked. \<open>TASK_READY\<close> stands for the
  spec's Ready; no line of the sources mentions such a constant.
\<close>

datatype task_status_en = TASK_COMMAND | TASK_READY | TASK_RUNNING | TASK_BLOCKED

record pcb_t =
  pid :: int
  status :: task_status_en
  slice_start_ms :: u32
  sockfd :: u32
  time_ms :: u32
  ellapsed_time_ms :: u32
  priority_level :: nat

text \<open>The request codes of \<open>msg.h\<close> that the sources use, and the message itself.\<close>

datatype request_en =
  PROCESS_REQUEST_RUN | PROCESS_REQUEST_BLOCK | PROCESS_REQUEST_ACK | PROCESS_REQUEST_DONE

record msg_t =
  msg_pid :: int
  request :: request_en
  msg_time_ms :: u32

datatype scheduler_en = NULL_SCHEDULER | SCHED_FIFO | SCHED_SJF | SCHED_RR | SCHED_MLFQ

definition TIME_SLICE :: u32 where
  "TIME_SLICE = 500"

definition NUM_QUEUES :: nat where
  "NUM_QUEUES = 3"

subsection \<open>Queues\<close>

text \<open>
  A \<open>queue_t\<close> is a singly linked list with \<open>head\<close> and \<open>tail\<close>; the model is the list of
  its PCBs from head to tail, and a pointer to a queue element is its position.
\<close>

type_synonym queue_t = "pcb_t list"

text \<open>
  Modelled from the spec: \<open>enqueue_pcb\<close> (\<open>queue.c\<close> is not among the sources). Section 4.1:
  \<open>append(pcr)\<close> adds to the tail.
\<close>

definition enqueue_pcb :: "queue_t \<Rightarrow> pcb_t \<Rightarrow> queue_t" where
  "enqueue_pcb q p = q @ [p]"

text \<open>
  Modelled from the spec: \<open>dequeue_pcb\<close> (\<open>queue.c\<close> is not among the sources). Section 4.1:
  \<open>popHead()\<close> removes and returns the head PCB or signals empty (\<open>NULL\<close> in the callers).
\<close>

definition dequeue_pcb :: "queue_t \<Rightarrow> (pcb_t \<times> queue_t) option" where
  "dequeue_pcb q = (case q of [] \<Rightarrow> None | p # rest \<Rightarrow> Some (p, rest))"

text \<open>
  Modelled from the spec: \<open>remove_queue_elem\<close> (\<open>queue.c\<close> is not among the sources).
  Section 4.1: \<open>removeElement(ref)\<close> removes a specific element and returns it, or signals
  not-found.
\<close>

definition remove_queue_elem :: "queue_t \<Rightarrow> nat \<Rightarrow> (pcb_t \<times> queue_t) option" where
  "remove_queue_elem q i =
     (if i < length q then Some (q ! i, take i q @ drop (Suc i) q) else None)"

text \<open>
  Modelled from the spec: \<open>new_pcb\<close> (\<open>queue.c\<close> is not among the sources). Section 6: a
  request creates a PCB for \<open>(processId, channelHandle, durationMs)\<close>; section 7: the
  allocation can fail. The first argument is the result of the allocation: \<open>None\<close> when it
  fails, otherwise the fresh block, whose other fields hold whatever \<open>new_pcb\<close> leaves
  there.
\<close>

definition new_pcb :: "pcb_t option \<Rightarrow> int \<Rightarrow> u32 \<Rightarrow> u32 \<Rightarrow> pcb_t option" where
  "new_pcb mem p fd ms =
     (case mem of None \<Rightarrow> None
      | Some raw \<Rightarrow> Some (raw\<lparr>pid := p, sockfd := fd, time_ms := ms\<rparr>))"

subsection \<open>Simulator state\<close>

text \<open>
  The state the schedulers work on: the ready queue and the CPU slot of \<open>main\<close>, the static
  array \<open>levels\<close> of the MLFQ file (indices below \<open>NUM_QUEUES\<close> are the array; the scheduler
  never produces another index, see \<open>mlfq_scheduler_level_bound\<close>), the static flag
  \<open>first_dispatch_done\<close> of \<open>sjf_scheduler\<close>, and two logs of effects: the messages handed
  to \<open>write\<close> (a failed write is only reported with \<open>perror\<close>) and the PCBs handed to
  \<open>free\<close>, each in the order of the calls.
\<close>

record sim_state =
  ready_queue :: queue_t
  levels :: "nat \<Rightarrow> queue_t"
  cpu_task :: "pcb_t option"
  first_dispatch_done :: bool
  sent :: "msg_t list"
  freed :: "pcb_t list"

definition done_msg :: "pcb_t \<Rightarrow> u32 \<Rightarrow> msg_t" where
  "done_msg p current_time_ms =
     \<lparr>msg_pid = pid p, request = PROCESS_REQUEST_DONE, msg_time_ms = current_time_ms\<rparr>"

definition init_state :: sim_state where
  "init_state =
     \<lparr>ready_queue = [], levels = (\<lambda>i. []), cpu_task = None,
      first_dispatch_done = False, sent = [], freed = []\<rparr>"

section \<open>The four scheduling policies\<close>

text \<open>
  Every scheduler takes the tick length \<open>TICKS_MS\<close> (a macro of the missing headers) as its
  first argument, then the clock and the state. Each is written in the two steps of its
  source: \<open>_update\<close> is the block \<open>if (*cpu_task) { ... }\<close>, which adds the tick to the
  running PCB, completes it or (RR, MLFQ) takes the CPU from it; \<open>_dispatch\<close> is the block
  that fills an empty slot. A position in a list stands for a pointer to a queue element.
\<close>

subsection \<open>FIFO\<close>

definition fifo_update :: "u32 \<Rightarrow> u32 \<Rightarrow> sim_state \<Rightarrow> sim_state" where
  "fifo_update TICKS_MS current_time_ms s =
     (case cpu_task s of
        None \<Rightarrow> s
      | Some p0 \<Rightarrow>
          let p = p0\<lparr>ellapsed_time_ms := ellapsed_time_ms p0 + TICKS_MS\<rparr> in
          if ellapsed_time_ms p \<ge> time_ms p
          then s\<lparr>sent := sent s @ [done_msg p current_time_ms],
                 freed := freed s @ [p], cpu_task := None\<rparr>
          else s\<lparr>cpu_task := Some p\<rparr>)"

definition fifo_dispatch :: "sim_state \<Rightarrow> sim_state" where
  "fifo_dispatch s =
     (case cpu_task s of
        Some p \<Rightarrow> s
      | None \<Rightarrow>
          (case dequeue_pcb (ready_queue s) of
             None \<Rightarrow> s
           | Some (p, rest) \<Rightarrow> s\<lparr>cpu_task := Some p, ready_queue := rest\<rparr>))"

definition fifo_scheduler :: "u32 \<Rightarrow> u32 \<Rightarrow> sim_state \<Rightarrow> sim_state" where
  "fifo_scheduler TICKS_MS current_time_ms s =
     fifo_dispatch (fifo_update TICKS_MS current_time_ms s)"

subsection \<open>SJF\<close>

definition sjf_update :: "u32 \<Rightarrow> u32 \<Rightarrow> sim_state \<Rightarrow> sim_state" where
  "sjf_update TICKS_MS current_time_ms s =
     (case cpu_task s of
        None \<Rightarrow> s
      | Some p0 \<Rightarrow>
          let p = p0\<lparr>ellapsed_time_ms := ellapsed_time_ms p0 + TICKS_MS\<rparr> in
          if ellapsed_time_ms p \<ge> time_ms p
          then s\<lparr>sent := sent s @ [done_msg p current_time_ms],
                 freed := freed s @ [p], cpu_task := None\<rparr>
          else s\<lparr>cpu_task := Some p\<rparr>)"

text \<open>
  The scan of the ready queue: \<open>it\<close> walks from the head, \<open>min_elem\<close> is replaced only by a
  strictly smaller \<open>time_ms\<close>.
\<close>

function sjf_scan :: "queue_t \<Rightarrow> nat \<Rightarrow> nat \<Rightarrow> nat" where
  "sjf_scan q it min_elem =
     (if it < length q
      then sjf_scan q (Suc it)
             (if time_ms (q ! it) < time_ms (q ! min_elem) then it else min_elem)
      else min_elem)"
  by pat_completeness auto
termination
  by (relation "measure (\<lambda>(q, it, min_elem). length q - it)") auto

declare sjf_scan.simps [simp del]

definition sjf_dispatch :: "sim_state \<Rightarrow> sim_state" where
  "sjf_dispatch s =
     (if cpu_task s = None \<and> ready_queue s \<noteq> []
      then (case remove_queue_elem (ready_queue s) (sjf_scan (ready_queue s) 0 0) of
              None \<Rightarrow> s
            | Some (p, rest) \<Rightarrow>
                s\<lparr>cpu_task := Some p, ready_queue := rest, first_dispatch_done := True\<rparr>)
      else s)"

definition sjf_scheduler :: "u32 \<Rightarrow> u32 \<Rightarrow> sim_state \<Rightarrow> sim_state" where
  "sjf_scheduler TICKS_MS current_time_ms s =
     (let s1 = sjf_update TICKS_MS current_time_ms s in
      if \<not> first_dispatch_done s1 \<and> current_time_ms < 200 then s1
      else sjf_dispatch s1)"

subsection \<open>Round-Robin\<close>

definition rr_update :: "u32 \<Rightarrow> u32 \<Rightarrow> sim_state \<Rightarrow> sim_state" where
  "rr_update TICKS_MS current_time_ms s =
     (case cpu_task s of
        None \<Rightarrow> s
      | Some p0 \<Rightarrow>
          let p = p0\<lparr>ellapsed_time_ms := ellapsed_time_ms p0 + TICKS_MS\<rparr> in
          if ellapsed_time_ms p \<ge> time_ms p
          then s\<lparr>sent := sent s @ [done_msg p current_time_ms],
                 freed := freed s @ [p], cpu_task := None\<rparr>
          else if current_time_ms - slice_start_ms p \<ge> TIME_SLICE
          then (if ready_queue s = []
                then s\<lparr>cpu_task := Some (p\<lparr>slice_start_ms := current_time_ms\<rparr>)\<rparr>
                else s\<lparr>ready_queue := enqueue_pcb (ready_queue s) p, cpu_task := None\<rparr>)
          else s\<lparr>cpu_task := Some p\<rparr>)"

definition rr_dispatch :: "u32 \<Rightarrow> sim_state \<Rightarrow> sim_state" where
  "rr_dispatch current_time_ms s =
     (case cpu_task s of
        Some p \<Rightarrow> s
      | None \<Rightarrow>
          (case dequeue_pcb (ready_queue s) of
             None \<Rightarrow> s
           | Some (p, rest) \<Rightarrow>
               s\<lparr>cpu_task := Some (p\<lparr>slice_start_ms := current_time_ms\<rparr>),
                 ready_queue := rest\<rparr>))"

definition rr_scheduler :: "u32 \<Rightarrow> u32 \<Rightarrow> sim_state \<Rightarrow> sim_state" where
  "rr_scheduler TICKS_MS current_time_ms s =
     rr_dispatch current_time_ms (rr_update TICKS_MS current_time_ms s)"

subsection \<open>MLFQ\<close>

definition mlfq_init :: "sim_state \<Rightarrow> sim_state" where
  "mlfq_init s = s\<lparr>levels := (\<lambda>i. if i < NUM_QUEUES then [] else levels s i)\<rparr>"

definition enqueue_mlfq :: "pcb_t \<Rightarrow> sim_state \<Rightarrow> sim_state" where
  "enqueue_mlfq pcb s =
     (let p = pcb\<lparr>priority_level := 0, ellapsed_time_ms := 0, slice_start_ms := 0\<rparr>
      in s\<lparr>levels := (levels s)(0 := enqueue_pcb (levels s 0) p)\<rparr>)"

definition mlfq_update :: "u32 \<Rightarrow> u32 \<Rightarrow> sim_state \<Rightarrow> sim_state" where
  "mlfq_update TICKS_MS current_time_ms s =
     (case cpu_task s of
        None \<Rightarrow> s
      | Some p0 \<Rightarrow>
          let p = p0\<lparr>ellapsed_time_ms := ellapsed_time_ms p0 + TICKS_MS\<rparr> in
          if ellapsed_time_ms p \<ge> time_ms p
          then s\<lparr>sent := sent s @ [done_msg p current_time_ms],
                 freed := freed s @ [p], cpu_task := None\<rparr>
          else if current_time_ms - slice_start_ms p \<ge> TIME_SLICE
          then (let p' = (if priority_level p < NUM_QUEUES - 1
                          then p\<lparr>priority_level := priority_level p + 1\<rparr> else p)
                in s\<lparr>levels := (levels s)(priority_level p' :=
                                    enqueue_pcb (levels s (priority_level p')) p'),
                     cpu_task := None\<rparr>)
          else s\<lparr>cpu_task := Some p\<rparr>)"

text \<open>The loop over the tiers, from index \<open>i\<close> on; it stops at the first PCB it finds.\<close>

function mlfq_pick :: "u32 \<Rightarrow> nat \<Rightarrow> sim_state \<Rightarrow> sim_state" where
  "mlfq_pick current_time_ms i s =
     (if i < NUM_QUEUES
      then (case dequeue_pcb (levels s i) of
              Some (next, rest) \<Rightarrow>
                s\<lparr>levels := (levels s)(i := rest),
                  cpu_task := Some (next\<lparr>slice_start_ms := current_time_ms\<rparr>)\<rparr>
            | None \<Rightarrow> mlfq_pick current_time_ms (Suc i) s)
      else s)"
  by pat_completeness auto
termination
  by (relation "measure (\<lambda>(t, i, s). NUM_QUEUES - i)") auto

declare mlfq_pick.simps [simp del]

definition mlfq_dispatch :: "u32 \<Rightarrow> sim_state \<Rightarrow> sim_state" where
  "mlfq_dispatch current_time_ms s =
     (case cpu_task s of
        Some p \<Rightarrow> s
      | None \<Rightarrow> mlfq_pick current_time_ms 0 s)"

definition mlfq_scheduler :: "u32 \<Rightarrow> u32 \<Rightarrow> sim_state \<Rightarrow> sim_state" where
  "mlfq_scheduler TICKS_MS current_time_ms s =
     mlfq_dispatch current_time_ms (mlfq_update TICKS_MS current_time_ms s)"

section \<open>The tick driver\<close>

text \<open>
  The branch of \<open>check_new_commands\<close> for a \<open>RUN\<close> message that was read and acknowledged
  on the connection \<open>cmd_sockfd\<close>; \<open>mem\<close> is the result of the allocation inside \<open>new_pcb\<close>.
\<close>

definition run_request ::
  "scheduler_en \<Rightarrow> pcb_t option \<Rightarrow> u32 \<Rightarrow> msg_t \<Rightarrow> sim_state \<Rightarrow> sim_state" where
  "run_request scheduler mem cmd_sockfd msg s =
     (case new_pcb mem (msg_pid msg) cmd_sockfd (msg_time_ms msg) of
        None \<Rightarrow> s
      | Some p0 \<Rightarrow>
          let p = p0\<lparr>status := TASK_RUNNING, ellapsed_time_ms := 0, slice_start_ms := 0\<rparr>
          in if scheduler = SCHED_MLFQ then enqueue_mlfq p s
             else s\<lparr>ready_queue := enqueue_pcb (ready_queue s) p\<rparr>)"

text \<open>
  The treatment of one message that was read from a connection and acknowledged. A \<open>RUN\<close>
  request is admitted; a \<open>BLOCK\<close> request only adds a PCB to the blocked queue and any other
  request is only logged, and neither touches the state modelled here (the blocked queue
  and its timer share no state with the ready structures and are left out).
\<close>

definition handle_msg ::
  "scheduler_en \<Rightarrow> pcb_t option \<Rightarrow> u32 \<Rightarrow> msg_t \<Rightarrow> sim_state \<Rightarrow> sim_state" where
  "handle_msg scheduler mem cmd_sockfd msg s =
     (if request msg = PROCESS_REQUEST_RUN then run_request scheduler mem cmd_sockfd msg s
      else s)"

text \<open>
  \<open>check_new_commands\<close> over the messages of one tick, in the order of the connections:
  each comes with the result of the allocation made for it and with its connection.
\<close>

type_synonym msg_event = "pcb_t option \<times> u32 \<times> msg_t"

fun check_new_commands :: "scheduler_en \<Rightarrow> msg_event list \<Rightarrow> sim_state \<Rightarrow> sim_state" where
  "check_new_commands scheduler [] s = s"
| "check_new_commands scheduler ((mem, fd, msg) # evs) s =
     check_new_commands scheduler evs (handle_msg scheduler mem fd msg s)"

text \<open>The \<open>switch\<close> of \<open>main\<close> on the active scheduler.\<close>

definition run_scheduler :: "scheduler_en \<Rightarrow> u32 \<Rightarrow> u32 \<Rightarrow> sim_state \<Rightarrow> sim_state" where
  "run_scheduler scheduler TICKS_MS current_time_ms s =
     (case scheduler of
        SCHED_FIFO \<Rightarrow> fifo_scheduler TICKS_MS current_time_ms s
      | SCHED_SJF \<Rightarrow> sjf_scheduler TICKS_MS current_time_ms s
      | SCHED_RR \<Rightarrow> rr_scheduler TICKS_MS current_time_ms s
      | SCHED_MLFQ \<Rightarrow> mlfq_scheduler TICKS_MS current_time_ms s
      | NULL_SCHEDULER \<Rightarrow> s)"

text \<open>
  One pass of the main loop over the engine state: the messages of this tick, then the
  active scheduler (the pass over the blocked queue in between touches neither the ready
  structures nor the CPU slot).
\<close>

definition main_tick ::
  "scheduler_en \<Rightarrow> u32 \<Rightarrow> u32 \<Rightarrow> msg_event list \<Rightarrow> sim_state \<Rightarrow> sim_state" where
  "main_tick scheduler TICKS_MS current_time_ms evs s =
     run_scheduler scheduler TICKS_MS current_time_ms (check_new_commands scheduler evs s)"

text \<open>
  Consecutive passes of the loop, one list of requests per tick; the clock advances by
  \<open>TICKS_MS\<close> after each pass.
\<close>

fun main_loop ::
  "scheduler_en \<Rightarrow> u32 \<Rightarrow> u32 \<Rightarrow> msg_event list list \<Rightarrow> sim_state \<Rightarrow> u32 \<times> sim_state" where
  "main_loop scheduler TICKS_MS current_time_ms [] s = (current_time_ms, s)"
| "main_loop scheduler TICKS_MS current_time_ms (evs # rest) s =
     main_loop scheduler TICKS_MS (current_time_ms + TICKS_MS) rest
       (main_tick scheduler TICKS_MS current_time_ms evs s)"

section \<open>Observations and sample values\<close>

text \<open>
  The PCBs that the messages of a tick put into the ready structure, in order: one for
  every \<open>RUN\<close> request whose allocation succeeded.
\<close>

definition admitted :: "msg_event list \<Rightarrow> pcb_t list" where
  "admitted evs =
     concat (map (\<lambda>(mem, fd, msg).
       if request msg = PROCESS_REQUEST_RUN
       then (case mem of None \<Rightarrow> []
             | Some raw \<Rightarrow>
                 [raw\<lparr>pid := msg_pid msg, sockfd := fd, time_ms := msg_time_ms msg,
                      status := TASK_RUNNING, ellapsed_time_ms := 0, slice_start_ms := 0\<rparr>])
       else []) evs)"

text \<open>
  The PCBs a state holds: those of the ready queue and of the three tiers, and the one in
  the CPU slot.
\<close>

definition queued :: "sim_state \<Rightarrow> pcb_t list" where
  "queued s = ready_queue s @ concat (map (levels s) [0..<NUM_QUEUES])"

definition held :: "sim_state \<Rightarrow> pcb_t list" where
  "held s = queued s @ (case cpu_task s of None \<Rightarrow> [] | Some p \<Rightarrow> [p])"

text \<open>
  Two PCB values belong to the same burst when they agree on process, connection and
  requested duration. \<open>carried_over\<close> says where a PCB held after a scheduler invocation
  comes from: it waited in a queue and has the elapsed time it had, or it was on the CPU,
  did not complete, and has one tick more.
\<close>

definition same_burst :: "pcb_t \<Rightarrow> pcb_t \<Rightarrow> bool" where
  "same_burst p q = (pid p = pid q \<and> sockfd p = sockfd q \<and> time_ms p = time_ms q)"

definition carried_over :: "u32 \<Rightarrow> sim_state \<Rightarrow> pcb_t \<Rightarrow> bool" where
  "carried_over TICKS_MS s q =
     ((\<exists>p \<in> set (queued s). same_burst p q \<and> ellapsed_time_ms q = ellapsed_time_ms p)
      \<or> (\<exists>c. cpu_task s = Some c \<and> same_burst c q
            \<and> ellapsed_time_ms q = ellapsed_time_ms c + TICKS_MS
            \<and> \<not> time_ms c \<le> ellapsed_time_ms c + TICKS_MS))"

text \<open>Sample values for the concrete runs: a PCB in tier \<open>k\<close>, and a \<open>RUN\<close> request.\<close>

definition job :: "int \<Rightarrow> u32 \<Rightarrow> u32 \<Rightarrow> u32 \<Rightarrow> nat \<Rightarrow> pcb_t" where
  "job p ms e ss k =
     \<lparr>pid = p, status = TASK_RUNNING, slice_start_ms = ss, sockfd = 3, time_ms = ms,
      ellapsed_time_ms = e, priority_level = k\<rparr>"

definition stale_block :: pcb_t where
  "stale_block =
     \<lparr>pid = 99, status = TASK_COMMAND, slice_start_ms = 7, sockfd = 8, time_ms = 9,
      ellapsed_time_ms = 640, priority_level = 2\<rparr>"

definition run_msg :: "int \<Rightarrow> u32 \<Rightarrow> msg_t" where
  "run_msg p ms = \<lparr>msg_pid = p, request = PROCESS_REQUEST_RUN, msg_time_ms = ms\<rparr>"

text \<open>
  The PCBs of process \<open>x\<close> that a state holds. Process ids come from the requests and
  nothing in the engine keeps them distinct, so a statement that follows one process
  says that it has one PCB.
\<close>

definition pcbs_of :: "int \<Rightarrow> sim_state \<Rightarrow> pcb_t list" where
  "pcbs_of x s = filter (\<lambda>q. pid q = x) (held s)"

text \<open>
  The test of the preemption branch of \<open>rr_scheduler\<close> and \<open>mlfq_scheduler\<close> on the PCB
  \<open>c\<close> that is in the CPU slot when tick \<open>current_time_ms\<close> begins: with this tick's
  increment the burst is not complete, and the quantum is used up. \<open>mlfq_expiry\<close> is 1
  when the CPU slot holds process \<open>x\<close> and the test holds, and \<open>mlfq_expiries\<close> counts
  these ticks over a run of the main loop under MLFQ.
\<close>

definition quantum_expired :: "u32 \<Rightarrow> u32 \<Rightarrow> pcb_t \<Rightarrow> bool" where
  "quantum_expired TICKS_MS current_time_ms c =
     (\<not> time_ms c \<le> ellapsed_time_ms c + TICKS_MS
      \<and> TIME_SLICE \<le> current_time_ms - slice_start_ms c)"

definition mlfq_expiry :: "int \<Rightarrow> u32 \<Rightarrow> u32 \<Rightarrow> sim_state \<Rightarrow> nat" where
  "mlfq_expiry x TICKS_MS current_time_ms s =
     (case cpu_task s of
        Some c \<Rightarrow> if pid c = x \<and> quantum_expired TICKS_MS current_time_ms c then 1 else 0
      | None \<Rightarrow> 0)"

fun mlfq_expiries :: "int \<Rightarrow> u32 \<Rightarrow> u32 \<Rightarrow> msg_event list list \<Rightarrow> sim_state \<Rightarrow> nat" where
  "mlfq_expiries x TICKS_MS t [] s = 0"
| "mlfq_expiries x TICKS_MS t (evs # rest) s =
     mlfq_expiry x TICKS_MS t s
     + mlfq_expiries x TICKS_MS (t + TICKS_MS) rest (main_tick SCHED_MLFQ TICKS_MS t evs s)"

text \<open>
  Process \<open>x\<close> is in tier \<open>k\<close>: the state holds at most one PCB of \<open>x\<close>, its priority level
  is \<open>k\<close>, and a PCB of \<open>x\<close> that waits in the queue of tier \<open>i\<close> has priority level \<open>i\<close>.
\<close>

definition mlfq_tracked :: "int \<Rightarrow> nat \<Rightarrow> sim_state \<Rightarrow> bool" where
  "mlfq_tracked x k s =
     (length (pcbs_of x s) \<le> 1
      \<and> list_all (\<lambda>q. priority_level q = k) (pcbs_of x s)
      \<and> list_all (\<lambda>i. list_all (\<lambda>q. pid q = x \<longrightarrow> priority_level q = i) (levels s i))
           [0..<NUM_QUEUES])"

text \<open>
  What a tick of Round-Robin does to process \<open>x\<close>, read off the states before and after
  the tick: \<open>Preempted e\<close> when \<open>x\<close> had the CPU as the tick began and waits in the ready
  queue after it, with \<open>e\<close> ms elapsed; \<open>Completed e\<close> when a PCB of \<open>x\<close> with \<open>e\<close> ms elapsed
  was freed in this tick and its \<open>DONE\<close> message was written in it. \<open>rr_trace\<close> collects
  these events over a run of the main loop, \<open>rr_cpu_ticks\<close> counts the ticks of the run
  that began with \<open>x\<close> on the CPU (the ticks charged to \<open>x\<close>), and \<open>rr_contended\<close> says
  that at each of those ticks the ready queue, with the PCBs admitted in that tick, was
  not empty.
\<close>

datatype rr_event = Preempted u32 | Completed u32

definition on_cpu :: "int \<Rightarrow> sim_state \<Rightarrow> bool" where
  "on_cpu x s = (case cpu_task s of None \<Rightarrow> False | Some c \<Rightarrow> pid c = x)"

definition rr_tick_events ::
  "int \<Rightarrow> u32 \<Rightarrow> u32 \<Rightarrow> msg_event list \<Rightarrow> sim_state \<Rightarrow> rr_event list" where
  "rr_tick_events x TICKS_MS t evs s =
     (let s' = main_tick SCHED_RR TICKS_MS t evs s in
      (if on_cpu x s
       then map (\<lambda>q. Preempted (ellapsed_time_ms q))
              (filter (\<lambda>q. pid q = x) (ready_queue s'))
       else [])
      @ map (\<lambda>q. Completed (ellapsed_time_ms q))
          (filter (\<lambda>q. pid q = x \<and> done_msg q t \<in> set (drop (length (sent s)) (sent s')))
             (drop (length (freed s)) (freed s'))))"

fun rr_trace ::
  "int \<Rightarrow> u32 \<Rightarrow> u32 \<Rightarrow> msg_event list list \<Rightarrow> sim_state \<Rightarrow> rr_event list" where
  "rr_trace x TICKS_MS t [] s = []"
| "rr_trace x TICKS_MS t (evs # rest) s =
     rr_tick_events x TICKS_MS t evs s
     @ rr_trace x TICKS_MS (t + TICKS_MS) rest (main_tick SCHED_RR TICKS_MS t evs s)"

fun rr_cpu_ticks :: "int \<Rightarrow> u32 \<Rightarrow> u32 \<Rightarrow> msg_event list list \<Rightarrow> sim_state \<Rightarrow> nat" where
  "rr_cpu_ticks x TICKS_MS t [] s = 0"
| "rr_cpu_ticks x TICKS_MS t (evs # rest) s =
     (if on_cpu x s then 1 else 0)
     + rr_cpu_ticks x TICKS_MS (t + TICKS_MS) rest (main_tick SCHED_RR TICKS_MS t evs s)"

fun rr_contended :: "int \<Rightarrow> u32 \<Rightarrow> u32 \<Rightarrow> msg_event list list \<Rightarrow> sim_state \<Rightarrow> bool" where
  "rr_contended x TICKS_MS t [] s = True"
| "rr_contended x TICKS_MS t (evs # rest) s =
     ((\<not> on_cpu x s \<or> ready_queue s @ admitted evs \<noteq> [])
      \<and> rr_contended x TICKS_MS (t + TICKS_MS) rest (main_tick SCHED_RR TICKS_MS t evs s))"

text \<open>
  The events that are due once a burst of 1300 ms has had \<open>n\<close> ms of CPU under a quantum
  of 500 ms.
\<close>

definition rr_expected :: "nat \<Rightarrow> rr_event list" where
  "rr_expected n =
     (if 500 \<le> n then [Preempted 500] else [])
     @ (if 1000 \<le> n then [Preempted 1000] else [])
     @ (if 1300 \<le> n then [Completed 1300] else [])"

text \<open>
  The two situations of a process \<open>x\<close> of 1300 ms that has had \<open>e\<close> ms of CPU. It waits:
  it is not on the CPU, its PCB is in the ready queue with \<open>e\<close> ms elapsed (with
  \<open>e = 1300\<close> there is none left), and its grants so far were whole quanta. Or it runs:
  it has the CPU with \<open>e\<close> ms elapsed and, as tick \<open>t\<close> begins, \<open>e mod 500 + T\<close> ms have
  passed since the grant began.
\<close>

definition rr_waiting :: "int \<Rightarrow> sim_state \<Rightarrow> nat \<Rightarrow> bool" where
  "rr_waiting x s e =
     (\<not> on_cpu x s
      \<and> map (\<lambda>q. (time_ms q, ellapsed_time_ms q)) (filter (\<lambda>q. pid q = x) (ready_queue s)) =
          (if e < 1300 then [(1300, of_nat e)] else [])
      \<and> (e mod 500 = 0 \<or> e = 1300))"

definition rr_running :: "int \<Rightarrow> nat \<Rightarrow> u32 \<Rightarrow> sim_state \<Rightarrow> nat \<Rightarrow> bool" where
  "rr_running x T t s e =
     (e < 1300 \<and> filter (\<lambda>q. pid q = x) (ready_queue s) = []
      \<and> (case cpu_task s of
           None \<Rightarrow> False
         | Some c \<Rightarrow> pid c = x \<and> time_ms c = 1300 \<and> ellapsed_time_ms c = of_nat e
             \<and> t - slice_start_ms c = of_nat (e mod 500 + T)))"

definition rr_phase :: "int \<Rightarrow> nat \<Rightarrow> u32 \<Rightarrow> sim_state \<Rightarrow> nat \<Rightarrow> bool" where
  "rr_phase x T t s e =
     (T dvd e \<and> e \<le> 1300 \<and> (rr_waiting x s e \<or> rr_running x T t s e))"

text \<open>
  Sample runs: one \<open>RUN\<close> request of 2500 ms followed by fifteen ticks without requests,
  and twenty-four ticks without requests. In \<open>rr_sample_state d\<close> process 1, of 1300 ms,
  and process 2, of \<open>d\<close> ms, wait in the ready queue: the state in which the admission of
  the two requests \<open>rr_sample_requests d\<close> puts the initial one.
\<close>

definition mlfq_sample_run :: "msg_event list list" where
  "mlfq_sample_run =
     [[(Some stale_block, 3, run_msg 1 2500)], [], [], [], [], [], [], [], [], [], [],
      [], [], [], [], []]"

definition rr_sample_run :: "msg_event list list" where
  "rr_sample_run =
     [[], [], [], [], [], [], [], [], [], [], [], [], [], [], [], [], [], [], [], [], [], [],
      [], []]"

definition rr_sample_state :: "u32 \<Rightarrow> sim_state" where
  "rr_sample_state d = init_state\<lparr>ready_queue := [job 1 1300 0 0 0, job 2 d 0 0 0]\<rparr>"

definition rr_sample_requests :: "u32 \<Rightarrow> msg_event list" where
  "rr_sample_requests d =
     [(Some (job 0 0 0 0 0), 3, run_msg 1 1300), (Some (job 0 0 0 0 0), 3, run_msg 2 d)]"

section \<open>Auxiliary lemmas\<close>

lemma check_new_commands_ready:
  "scheduler \<noteq> SCHED_MLFQ \<Longrightarrow>
   check_new_commands scheduler evs s = s\<lparr>ready_queue := ready_queue s @ admitted evs\<rparr>"
proof (induction evs arbitrary: s)
  case Nil
  then show ?case by (simp add: admitted_def)
next
  case (Cons ev evs)
  obtain mem fd msg where ev: "ev = (mem, fd, msg)" by (cases ev)
  show ?case
    using Cons.prems
    by (cases mem)
      (simp_all add: ev Cons.IH [OF Cons.prems] handle_msg_def run_request_def new_pcb_def
        enqueue_pcb_def admitted_def Let_def)
qed

lemma admitted_Cons: "admitted (ev # evs) = admitted [ev] @ admitted evs"
  by (simp add: admitted_def)

lemma handle_msg_mlfq:
  "handle_msg SCHED_MLFQ mem fd msg s =
     s\<lparr>levels := (levels s)(0 := levels s 0 @
        map (\<lambda>p. p\<lparr>priority_level := 0, ellapsed_time_ms := 0, slice_start_ms := 0\<rparr>)
          (admitted [(mem, fd, msg)]))\<rparr>"
  by (cases mem)
    (simp_all add: handle_msg_def run_request_def new_pcb_def enqueue_mlfq_def enqueue_pcb_def
      admitted_def Let_def)

lemma check_new_commands_mlfq:
  "check_new_commands SCHED_MLFQ evs s =
     s\<lparr>levels := (levels s)(0 := levels s 0 @
        map (\<lambda>p. p\<lparr>priority_level := 0, ellapsed_time_ms := 0, slice_start_ms := 0\<rparr>)
          (admitted evs))\<rparr>"
proof (induction evs arbitrary: s)
  case Nil
  then show ?case by (simp add: admitted_def)
next
  case (Cons ev evs)
  obtain mem fd msg where ev: "ev = (mem, fd, msg)" by (cases ev)
  have "check_new_commands SCHED_MLFQ (ev # evs) s =
      check_new_commands SCHED_MLFQ evs (handle_msg SCHED_MLFQ mem fd msg s)"
    by (simp add: ev)
  also have "\<dots> = s\<lparr>levels := (levels s)(0 := levels s 0 @
        map (\<lambda>p. p\<lparr>priority_level := 0, ellapsed_time_ms := 0, slice_start_ms := 0\<rparr>)
          (admitted [ev] @ admitted evs))\<rparr>"
    unfolding Cons.IH handle_msg_mlfq by (simp add: ev)
  finally show ?case by (simp only: admitted_Cons [of ev evs])
qed

lemma main_loop_append:
  "main_loop scheduler TICKS_MS t (as @ bs) s =
     main_loop scheduler TICKS_MS (fst (main_loop scheduler TICKS_MS t as s)) bs
       (snd (main_loop scheduler TICKS_MS t as s))"
  by (induction as arbitrary: t s) simp_all

lemma admitted_append: "admitted (a @ b) = admitted a @ admitted b"
  by (simp add: admitted_def)

lemma upt_NUM_QUEUES: "[0..<NUM_QUEUES] = [0, 1, 2]"
  by (simp add: NUM_QUEUES_def upt_rec numeral_3_eq_3 numeral_2_eq_2)

lemma pcbs_of_eq:
  "pcbs_of x s =
     filter (\<lambda>q. pid q = x) (ready_queue s) @ filter (\<lambda>q. pid q = x) (levels s 0)
     @ filter (\<lambda>q. pid q = x) (levels s 1) @ filter (\<lambda>q. pid q = x) (levels s 2)
     @ (case cpu_task s of None \<Rightarrow> [] | Some c \<Rightarrow> if pid c = x then [c] else [])"
  unfolding pcbs_of_def held_def queued_def upt_NUM_QUEUES
  by (cases "cpu_task s") simp_all

subsection \<open>The scan of SJF\<close>

text \<open>
  Loop invariant of the scan: \<open>min_elem\<close> is the first position holding the least \<open>time_ms\<close>
  among the positions already visited.
\<close>

lemma sjf_scan_first_min:
  "min_elem < length q \<Longrightarrow>
   (\<forall>j<it. time_ms (q ! min_elem) \<le> time_ms (q ! j)) \<Longrightarrow>
   (\<forall>j<min_elem. time_ms (q ! min_elem) < time_ms (q ! j)) \<Longrightarrow>
   sjf_scan q it min_elem < length q \<and>
   (\<forall>j<length q. time_ms (q ! sjf_scan q it min_elem) \<le> time_ms (q ! j)) \<and>
   (\<forall>j. j < sjf_scan q it min_elem \<longrightarrow>
      time_ms (q ! sjf_scan q it min_elem) < time_ms (q ! j))"
proof (induction q it min_elem rule: sjf_scan.induct)
  case (1 q it min_elem)
  show ?case
  proof (cases "it < length q")
    case False
    with 1 show ?thesis by (simp add: sjf_scan.simps [of q it min_elem])
  next
    case True
    let ?m = "if time_ms (q ! it) < time_ms (q ! min_elem) then it else min_elem"
    have m: "?m < length q" using True 1 by simp
    have pre: "\<forall>j<Suc it. time_ms (q ! ?m) \<le> time_ms (q ! j)"
      using 1(3) by (auto simp: less_Suc_eq)
    have first: "\<forall>j<?m. time_ms (q ! ?m) < time_ms (q ! j)"
    proof (cases "time_ms (q ! it) < time_ms (q ! min_elem)")
      case True
      with 1(3) show ?thesis by (auto intro: less_le_trans)
    next
      case False
      with 1(4) show ?thesis by simp
    qed
    from "1.IH" [OF True m pre first] True show ?thesis
      by (simp add: sjf_scan.simps [of q it min_elem])
  qed
qed

lemma sjf_update_flag: "first_dispatch_done (sjf_update TICKS_MS t s) = first_dispatch_done s"
  by (simp add: sjf_update_def Let_def split: option.splits)

lemma sjf_update_queue: "ready_queue (sjf_update TICKS_MS t s) = ready_queue s"
  by (simp add: sjf_update_def Let_def split: option.splits)

subsection \<open>The scan of MLFQ\<close>

lemma mlfq_pick_first:
  "i \<le> k \<Longrightarrow> k < NUM_QUEUES \<Longrightarrow> (\<forall>j. i \<le> j \<and> j < k \<longrightarrow> levels s j = [])
   \<Longrightarrow> levels s k = q # qs
   \<Longrightarrow> mlfq_pick t i s =
       s\<lparr>levels := (levels s)(k := qs), cpu_task := Some (q\<lparr>slice_start_ms := t\<rparr>)\<rparr>"
proof (induction t i s rule: mlfq_pick.induct)
  case (1 t i s)
  show ?case
  proof (cases "i = k")
    case True
    with 1 show ?thesis
      by (simp add: mlfq_pick.simps [of t k s] dequeue_pcb_def fun_upd_def)
  next
    case False
    with 1 have lt: "i < k" and emp: "levels s i = []" by auto
    from 1 lt have "mlfq_pick t (Suc i) s =
       s\<lparr>levels := (levels s)(k := qs), cpu_task := Some (q\<lparr>slice_start_ms := t\<rparr>)\<rparr>"
      by (simp add: dequeue_pcb_def emp fun_upd_def)
    with 1 lt emp show ?thesis
      by (simp add: mlfq_pick.simps [of t i s] dequeue_pcb_def fun_upd_def)
  qed
qed

lemma mlfq_pick_none:
  "(\<forall>j. i \<le> j \<and> j < NUM_QUEUES \<longrightarrow> levels s j = []) \<Longrightarrow> mlfq_pick t i s = s"
proof (induction t i s rule: mlfq_pick.induct)
  case (1 t i s)
  show ?case
  proof (cases "i < NUM_QUEUES")
    case True
    with 1 have emp: "levels s i = []" by auto
    with 1 True have "mlfq_pick t (Suc i) s = s" by (simp add: dequeue_pcb_def)
    with True emp show ?thesis by (simp add: mlfq_pick.simps [of t i s] dequeue_pcb_def)
  next
    case False
    then show ?thesis by (simp add: mlfq_pick.simps [of t i s])
  qed
qed

lemma mlfq_pick_cases:
  "mlfq_pick t 0 s = s \<and> (\<forall>j<NUM_QUEUES. levels s j = []) \<or>
   (\<exists>k q qs. k < NUM_QUEUES \<and> (\<forall>j<k. levels s j = []) \<and> levels s k = q # qs \<and>
      mlfq_pick t 0 s =
        s\<lparr>levels := (levels s)(k := qs), cpu_task := Some (q\<lparr>slice_start_ms := t\<rparr>)\<rparr>)"
proof (cases "\<forall>j<NUM_QUEUES. levels s j = []")
  case True
  then show ?thesis using mlfq_pick_none [of 0 s t] by simp
next
  case False
  define k where "k = (LEAST j. j < NUM_QUEUES \<and> levels s j \<noteq> [])"
  from False have ex: "\<exists>j. j < NUM_QUEUES \<and> levels s j \<noteq> []" by blast
  then have k: "k < NUM_QUEUES \<and> levels s k \<noteq> []"
    unfolding k_def by (rule LeastI_ex)
  have least: "\<forall>j<k. levels s j = []"
  proof (intro allI impI)
    fix j assume "j < k"
    then have "\<not> (j < NUM_QUEUES \<and> levels s j \<noteq> [])"
      unfolding k_def by (rule not_less_Least)
    with \<open>j < k\<close> k show "levels s j = []" by auto
  qed
  from k obtain q qs where q: "levels s k = q # qs" by (cases "levels s k") auto
  from k least q have "mlfq_pick t 0 s =
      s\<lparr>levels := (levels s)(k := qs), cpu_task := Some (q\<lparr>slice_start_ms := t\<rparr>)\<rparr>"
    by (intro mlfq_pick_first) auto
  with k least q show ?thesis by blast
qed


section \<open>Admission\<close>

text \<open>
  C1 (as stated). An accepted \<open>RUN\<close> request creates a PCB whose lifecycle state is Ready.
  The statement fails: the request below is admitted under FIFO and the PCB at the tail
  of the ready queue carries \<open>TASK_RUNNING\<close>, the value line 186 of the simulator writes.
\<close>

theorem run_request_status_not_ready:
  "status (last (ready_queue
      (run_request SCHED_FIFO (Some stale_block) 3 (run_msg 1 300) init_state))) \<noteq> TASK_READY"
  by (simp add: run_request_def new_pcb_def enqueue_pcb_def init_state_def Let_def)

text \<open>
  C1 (amended). For every accepted \<open>RUN\<close> request whose allocation succeeds, the engine
  creates a PCB with the request's pid, connection and duration, status \<open>TASK_RUNNING\<close>,
  elapsed time 0 and slice start 0, and inserts it by the active policy's rule: at the tail
  of tier 0 (with priority level 0) when the policy is MLFQ, at the tail of the shared
  ready queue otherwise; nothing else in the state changes. Over the messages of a whole
  tick, the PCBs admitted are appended in the order of the requests.
\<close>

theorem run_request_admits:
  "run_request scheduler (Some raw) fd msg s =
     (let p = raw\<lparr>pid := msg_pid msg, sockfd := fd, time_ms := msg_time_ms msg,
                  status := TASK_RUNNING, ellapsed_time_ms := 0, slice_start_ms := 0\<rparr>
      in if scheduler = SCHED_MLFQ
         then s\<lparr>levels := (levels s)(0 := levels s 0 @ [p\<lparr>priority_level := 0\<rparr>])\<rparr>
         else s\<lparr>ready_queue := ready_queue s @ [p]\<rparr>)
   \<and> check_new_commands scheduler evs s =
     (if scheduler = SCHED_MLFQ
      then s\<lparr>levels := (levels s)(0 := levels s 0 @
             map (\<lambda>p. p\<lparr>priority_level := 0, ellapsed_time_ms := 0, slice_start_ms := 0\<rparr>)
               (admitted evs))\<rparr>
      else s\<lparr>ready_queue := ready_queue s @ admitted evs\<rparr>)
   \<and> list_all (\<lambda>p. status p = TASK_RUNNING \<and> ellapsed_time_ms p = 0 \<and> slice_start_ms p = 0)
        (admitted evs)"
proof -
  have a: "run_request scheduler (Some raw) fd msg s =
     (let p = raw\<lparr>pid := msg_pid msg, sockfd := fd, time_ms := msg_time_ms msg,
                  status := TASK_RUNNING, ellapsed_time_ms := 0, slice_start_ms := 0\<rparr>
      in if scheduler = SCHED_MLFQ
         then s\<lparr>levels := (levels s)(0 := levels s 0 @ [p\<lparr>priority_level := 0\<rparr>])\<rparr>
         else s\<lparr>ready_queue := ready_queue s @ [p]\<rparr>)"
    by (cases raw)
      (simp add: enqueue_mlfq_def run_request_def new_pcb_def enqueue_pcb_def Let_def)
  have b: "check_new_commands scheduler evs s =
     (if scheduler = SCHED_MLFQ
      then s\<lparr>levels := (levels s)(0 := levels s 0 @
             map (\<lambda>p. p\<lparr>priority_level := 0, ellapsed_time_ms := 0, slice_start_ms := 0\<rparr>)
               (admitted evs))\<rparr>
      else s\<lparr>ready_queue := ready_queue s @ admitted evs\<rparr>)"
    by (simp add: check_new_commands_mlfq check_new_commands_ready)
  have c: "list_all (\<lambda>p. status p = TASK_RUNNING \<and> ellapsed_time_ms p = 0 \<and> slice_start_ms p = 0)
        (admitted evs)"
    by (induction evs) (auto simp add: admitted_def split: option.splits)
  from a b c show ?thesis by (intro conjI)
qed

theorem run_request_admits_witness:
  "ready_queue (run_request SCHED_RR (Some stale_block) 3 (run_msg 1 300)
      (init_state\<lparr>ready_queue := [job 2 100 0 0 0]\<rparr>)) =
     [job 2 100 0 0 0,
      \<lparr>pid = 1, status = TASK_RUNNING, slice_start_ms = 0, sockfd = 3, time_ms = 300,
       ellapsed_time_ms = 0, priority_level = 2\<rparr>]
   \<and> levels (run_request SCHED_MLFQ (Some stale_block) 3 (run_msg 1 300)
      (init_state\<lparr>levels := (\<lambda>i. [job 2 100 0 0 0])\<rparr>)) 0 =
     [job 2 100 0 0 0,
      \<lparr>pid = 1, status = TASK_RUNNING, slice_start_ms = 0, sockfd = 3, time_ms = 300,
       ellapsed_time_ms = 0, priority_level = 0\<rparr>]
   \<and> ready_queue (check_new_commands SCHED_FIFO
        [(Some stale_block, 3, run_msg 1 300), (None, 4, run_msg 2 50),
         (Some stale_block, 5, run_msg 3 70)] init_state) =
     [\<lparr>pid = 1, status = TASK_RUNNING, slice_start_ms = 0, sockfd = 3, time_ms = 300,
       ellapsed_time_ms = 0, priority_level = 2\<rparr>,
      \<lparr>pid = 3, status = TASK_RUNNING, slice_start_ms = 0, sockfd = 5, time_ms = 70,
       ellapsed_time_ms = 0, priority_level = 2\<rparr>]"
proof -
  let ?evs = "[(Some stale_block, 3, run_msg 1 300), (None, 4, run_msg 2 50),
         (Some stale_block, 5, run_msg 3 70)]"
  note rr = run_request_admits [of SCHED_RR stale_block 3 "run_msg 1 300"
      "init_state\<lparr>ready_queue := [job 2 100 0 0 0]\<rparr>" "[]", THEN conjunct1]
  note ml = run_request_admits [of SCHED_MLFQ stale_block 3 "run_msg 1 300"
      "init_state\<lparr>levels := (\<lambda>i. [job 2 100 0 0 0])\<rparr>" "[]", THEN conjunct1]
  note ff = run_request_admits [of SCHED_FIFO stale_block 3 "run_msg 1 300" init_state ?evs,
      THEN conjunct2, THEN conjunct1]
  show ?thesis
    unfolding rr ml ff
    by (simp add: init_state_def stale_block_def run_msg_def Let_def admitted_def)
qed

text \<open>
  C8. Under MLFQ every PCB entering the system goes through \<open>enqueue_mlfq\<close>, which puts it
  at the tail of tier 0 with priority level 0, elapsed time 0 and slice start 0, whatever
  these fields held before; the \<open>RUN\<close> branch of the tick driver calls it for every request
  (a process back from I/O sends a new \<open>RUN\<close> request), so all PCBs admitted in a tick are
  appended to tier 0 and no other tier changes.
\<close>

theorem enqueue_mlfq_resets_to_top:
  "enqueue_mlfq pcb s =
     s\<lparr>levels := (levels s)(0 := levels s 0 @
        [pcb\<lparr>priority_level := 0, ellapsed_time_ms := 0, slice_start_ms := 0\<rparr>])\<rparr>
   \<and> run_request SCHED_MLFQ (Some raw) fd msg s =
     s\<lparr>levels := (levels s)(0 := levels s 0 @
        [raw\<lparr>pid := msg_pid msg, sockfd := fd, time_ms := msg_time_ms msg,
             status := TASK_RUNNING,
             priority_level := 0, ellapsed_time_ms := 0, slice_start_ms := 0\<rparr>])\<rparr>
   \<and> check_new_commands SCHED_MLFQ evs s =
     s\<lparr>levels := (levels s)(0 := levels s 0 @
        map (\<lambda>p. p\<lparr>priority_level := 0, ellapsed_time_ms := 0, slice_start_ms := 0\<rparr>)
          (admitted evs))\<rparr>"
  by (simp add: enqueue_mlfq_def run_request_def new_pcb_def enqueue_pcb_def Let_def
      check_new_commands_mlfq)

theorem enqueue_mlfq_resets_to_top_witness:
  "levels (enqueue_mlfq (job 5 900 640 1200 2) init_state) 0 = [job 5 900 0 0 0]
   \<and> levels (enqueue_mlfq (job 5 900 640 1200 2) init_state) 2 = []"
  using enqueue_mlfq_resets_to_top [of "job 5 900 640 1200 2" init_state stale_block 3
      "run_msg 1 300" "[]", THEN conjunct1]
  by (simp add: init_state_def job_def)

section \<open>Shortest job first\<close>

text \<open>
  C3. Under SJF, when the warm-up is over (a dispatch has happened or the clock is not
  below 200), the CPU slot is empty after the running PCB was accounted for, and the ready
  queue is not empty, the scan returns a position \<open>m\<close> of the queue whose \<open>time_ms\<close> is
  least in the whole queue and strictly less than that of every earlier position (the
  first of the shortest jobs); that PCB goes to the CPU slot and leaves the queue, wherever
  it stood. With durations 300, 100 and 500 in the queue, the job of 100 ms is chosen.
\<close>

theorem sjf_selects_shortest:
  assumes warm: "first_dispatch_done s \<or> \<not> t < 200"
    and free: "cpu_task (sjf_update TICKS_MS t s) = None"
    and nonempty: "ready_queue s \<noteq> []"
  shows "let rq = ready_queue s; m = sjf_scan rq 0 0 in
     m < length rq
     \<and> (\<forall>j<length rq. time_ms (rq ! m) \<le> time_ms (rq ! j))
     \<and> (\<forall>j<m. time_ms (rq ! m) < time_ms (rq ! j))
     \<and> cpu_task (sjf_scheduler TICKS_MS t s) = Some (rq ! m)
     \<and> ready_queue (sjf_scheduler TICKS_MS t s) = take m rq @ drop (Suc m) rq
     \<and> (set (map time_ms rq) = {300, 100, 500} \<longrightarrow> time_ms (rq ! m) = 100)"
proof -
  define rq where "rq = ready_queue s"
  define m where "m = sjf_scan rq 0 0"
  from nonempty have "0 < length rq" by (simp add: rq_def)
  then have scan: "m < length rq \<and> (\<forall>j<length rq. time_ms (rq ! m) \<le> time_ms (rq ! j))
     \<and> (\<forall>j<m. time_ms (rq ! m) < time_ms (rq ! j))"
    unfolding m_def by (intro sjf_scan_first_min) simp_all
  have run: "sjf_scheduler TICKS_MS t s =
     (sjf_update TICKS_MS t s)\<lparr>cpu_task := Some (rq ! m),
        ready_queue := take m rq @ drop (Suc m) rq, first_dispatch_done := True\<rparr>"
    using warm free nonempty scan
    by (auto simp add: sjf_scheduler_def sjf_dispatch_def Let_def sjf_update_flag
        sjf_update_queue remove_queue_elem_def rq_def m_def)
  have ex: "set (map time_ms rq) = {300, 100, 500} \<longrightarrow> time_ms (rq ! m) = 100"
  proof
    assume d: "set (map time_ms rq) = {300, 100, 500}"
    from scan have "time_ms (rq ! m) \<in> set (map time_ms rq)" by simp
    with d have in3: "time_ms (rq ! m) \<in> {300, 100, 500}" by simp
    from d have "(100::u32) \<in> set (map time_ms rq)" by simp
    then obtain j where "j < length rq" "time_ms (rq ! j) = 100"
      by (auto simp: in_set_conv_nth)
    with scan have "time_ms (rq ! m) \<le> 100" by metis
    with in3 show "time_ms (rq ! m) = 100" by auto
  qed
  from scan run ex show ?thesis
    unfolding rq_def [symmetric] Let_def m_def [symmetric] by simp
qed

theorem sjf_selects_shortest_witness:
  "cpu_task (sjf_update 10 200
      (init_state\<lparr>ready_queue := [job 1 300 0 0 0, job 2 100 0 0 0, job 3 500 0 0 0]\<rparr>)) = None
   \<and> cpu_task (sjf_scheduler 10 200
      (init_state\<lparr>ready_queue := [job 1 300 0 0 0, job 2 100 0 0 0, job 3 500 0 0 0]\<rparr>))
     = Some (job 2 100 0 0 0)
   \<and> ready_queue (sjf_scheduler 10 200
      (init_state\<lparr>ready_queue := [job 1 300 0 0 0, job 2 100 0 0 0, job 3 500 0 0 0]\<rparr>))
     = [job 1 300 0 0 0, job 3 500 0 0 0]"
proof -
  let ?s = "init_state\<lparr>ready_queue := [job 1 300 0 0 0, job 2 100 0 0 0, job 3 500 0 0 0]\<rparr>"
  have warm: "first_dispatch_done ?s \<or> \<not> (200::u32) < 200" by simp
  have free: "cpu_task (sjf_update 10 200 ?s) = None"
    by (simp add: sjf_update_def init_state_def)
  have nonempty: "ready_queue ?s \<noteq> []" by simp
  have scan: "sjf_scan [job 1 300 0 0 0, job 2 100 0 0 0, job 3 500 0 0 0] 0 0 = 1"
    by (simp add: sjf_scan.simps job_def)
  from sjf_selects_shortest [OF warm free nonempty] free show ?thesis
    by (simp add: Let_def scan)
qed

text \<open>
  C7. Under SJF, while no dispatch has happened yet and the clock is below 200 ms, the
  scheduler only accounts for the running PCB: the ready queue is unchanged and an empty
  CPU slot stays empty. From 200 ms on the first dispatch takes place and sets the flag.
  Once the flag is set it stays set, and the scheduler dispatches at every clock value,
  also below 200.
\<close>

theorem sjf_warm_up_once:
  "(\<not> first_dispatch_done s \<and> t < 200 \<longrightarrow>
      sjf_scheduler TICKS_MS t s = sjf_update TICKS_MS t s
      \<and> ready_queue (sjf_scheduler TICKS_MS t s) = ready_queue s
      \<and> \<not> first_dispatch_done (sjf_scheduler TICKS_MS t s)
      \<and> (cpu_task s = None \<longrightarrow> cpu_task (sjf_scheduler TICKS_MS t s) = None))
   \<and> (\<not> first_dispatch_done s \<and> \<not> t < 200 \<and> cpu_task (sjf_update TICKS_MS t s) = None
        \<and> ready_queue s \<noteq> [] \<longrightarrow>
      cpu_task (sjf_scheduler TICKS_MS t s) \<noteq> None
      \<and> first_dispatch_done (sjf_scheduler TICKS_MS t s))
   \<and> (first_dispatch_done s \<longrightarrow>
      sjf_scheduler TICKS_MS t s = sjf_dispatch (sjf_update TICKS_MS t s)
      \<and> first_dispatch_done (sjf_scheduler TICKS_MS t s)
      \<and> (cpu_task (sjf_update TICKS_MS t s) = None \<and> ready_queue s \<noteq> [] \<longrightarrow>
           cpu_task (sjf_scheduler TICKS_MS t s) \<noteq> None))"
proof -
  have scan: "ready_queue s \<noteq> [] \<Longrightarrow> sjf_scan (ready_queue s) 0 0 < length (ready_queue s)"
    using sjf_scan_first_min [of 0 "ready_queue s" 0] by simp
  show ?thesis
    using scan
    by (auto simp add: sjf_scheduler_def sjf_dispatch_def Let_def sjf_update_flag
        sjf_update_queue remove_queue_elem_def split: option.splits)
      (auto simp add: sjf_update_def Let_def split: option.splits if_splits)
qed

theorem sjf_warm_up_once_witness:
  "sjf_scheduler 10 190 (init_state\<lparr>ready_queue := [job 1 300 0 0 0]\<rparr>) =
     init_state\<lparr>ready_queue := [job 1 300 0 0 0]\<rparr>
   \<and> cpu_task (sjf_scheduler 10 200 (init_state\<lparr>ready_queue := [job 1 300 0 0 0]\<rparr>)) \<noteq> None
   \<and> first_dispatch_done
       (sjf_scheduler 10 200 (init_state\<lparr>ready_queue := [job 1 300 0 0 0]\<rparr>))
   \<and> cpu_task (sjf_scheduler 10 50
       (init_state\<lparr>ready_queue := [job 1 300 0 0 0], first_dispatch_done := True\<rparr>)) \<noteq> None"
proof -
  let ?s = "init_state\<lparr>ready_queue := [job 1 300 0 0 0]\<rparr>"
  let ?s' = "init_state\<lparr>ready_queue := [job 1 300 0 0 0], first_dispatch_done := True\<rparr>"
  have f: "\<not> first_dispatch_done ?s" "first_dispatch_done ?s'"
    "ready_queue ?s \<noteq> []" "ready_queue ?s' \<noteq> []"
    by (simp_all add: init_state_def)
  have u: "sjf_update 10 190 ?s = ?s" "cpu_task (sjf_update 10 200 ?s) = None"
    "cpu_task (sjf_update 10 50 ?s') = None"
    by (simp_all add: sjf_update_def init_state_def)
  have a: "sjf_scheduler 10 190 ?s = ?s"
    using sjf_warm_up_once [of ?s 190 10] f u by simp
  have b: "cpu_task (sjf_scheduler 10 200 ?s) \<noteq> None
      \<and> first_dispatch_done (sjf_scheduler 10 200 ?s)"
    using sjf_warm_up_once [of ?s 200 10] f u by simp
  have c: "cpu_task (sjf_scheduler 10 50 ?s') \<noteq> None"
    using sjf_warm_up_once [of ?s' 50 10] f u by blast
  from a b c show ?thesis by blast
qed


section \<open>Round-Robin\<close>

text \<open>
  C4. Under RR, for a running PCB that is not complete after this tick was added to its
  elapsed time, when \<open>current_time_ms - slice_start_ms\<close> (in 32-bit unsigned arithmetic, as
  the code computes it) is at least 500: with an empty ready queue the PCB keeps the CPU,
  is not queued, and its slice start becomes the current tick; with a non-empty ready
  queue the PCB is appended to the tail and the CPU slot is vacated, after which the same
  invocation hands the slot to the head of the queue. Whenever the slot is empty, the head
  of the ready queue is popped into it with its slice start set to the current tick.
\<close>

theorem rr_quantum_expiry:
  "(cpu_task s = Some p \<and> \<not> time_ms p \<le> ellapsed_time_ms p + TICKS_MS
      \<and> TIME_SLICE \<le> t - slice_start_ms p \<and> ready_queue s = [] \<longrightarrow>
      rr_scheduler TICKS_MS t s =
        s\<lparr>cpu_task := Some (p\<lparr>ellapsed_time_ms := ellapsed_time_ms p + TICKS_MS,
                               slice_start_ms := t\<rparr>)\<rparr>)
   \<and> (cpu_task s = Some p \<and> \<not> time_ms p \<le> ellapsed_time_ms p + TICKS_MS
      \<and> TIME_SLICE \<le> t - slice_start_ms p \<and> ready_queue s = q # qs \<longrightarrow>
      rr_update TICKS_MS t s =
        s\<lparr>ready_queue := q # qs @ [p\<lparr>ellapsed_time_ms := ellapsed_time_ms p + TICKS_MS\<rparr>],
          cpu_task := None\<rparr>
      \<and> rr_scheduler TICKS_MS t s =
        s\<lparr>ready_queue := qs @ [p\<lparr>ellapsed_time_ms := ellapsed_time_ms p + TICKS_MS\<rparr>],
          cpu_task := Some (q\<lparr>slice_start_ms := t\<rparr>)\<rparr>)
   \<and> (cpu_task s = None \<and> ready_queue s = q # qs \<longrightarrow>
      rr_dispatch t s = s\<lparr>cpu_task := Some (q\<lparr>slice_start_ms := t\<rparr>), ready_queue := qs\<rparr>
      \<and> rr_scheduler TICKS_MS t s =
          s\<lparr>cpu_task := Some (q\<lparr>slice_start_ms := t\<rparr>), ready_queue := qs\<rparr>)
   \<and> (TIME_SLICE = 500)"
  by (simp add: rr_scheduler_def rr_update_def rr_dispatch_def enqueue_pcb_def dequeue_pcb_def
      Let_def TIME_SLICE_def)

theorem rr_quantum_expiry_witness:
  "rr_scheduler 10 1500 (init_state\<lparr>cpu_task := Some (job 1 1300 490 1000 0)\<rparr>) =
     init_state\<lparr>cpu_task := Some (job 1 1300 500 1500 0)\<rparr>
   \<and> rr_scheduler 10 1500
       (init_state\<lparr>cpu_task := Some (job 1 1300 490 1000 0),
                   ready_queue := [job 2 700 0 0 0, job 3 900 0 0 0]\<rparr>) =
     init_state\<lparr>cpu_task := Some (job 2 700 0 1500 0),
                ready_queue := [job 3 900 0 0 0, job 1 1300 500 1000 0]\<rparr>
   \<and> rr_scheduler 10 1500
       (init_state\<lparr>ready_queue := [job 2 700 0 0 0, job 3 900 0 0 0]\<rparr>) =
     init_state\<lparr>cpu_task := Some (job 2 700 0 1500 0), ready_queue := [job 3 900 0 0 0]\<rparr>"
proof -
  let ?p = "job 1 1300 490 1000 0"
  let ?s1 = "init_state\<lparr>cpu_task := Some ?p\<rparr>"
  let ?s2 = "init_state\<lparr>cpu_task := Some ?p,
                       ready_queue := [job 2 700 0 0 0, job 3 900 0 0 0]\<rparr>"
  let ?s3 = "init_state\<lparr>ready_queue := [job 2 700 0 0 0, job 3 900 0 0 0]\<rparr>"
  have h: "\<not> time_ms ?p \<le> ellapsed_time_ms ?p + 10" "TIME_SLICE \<le> 1500 - slice_start_ms ?p"
    by (simp_all add: job_def TIME_SLICE_def)
  have c: "cpu_task ?s1 = Some ?p" "ready_queue ?s1 = []"
    "cpu_task ?s2 = Some ?p" "ready_queue ?s2 = job 2 700 0 0 0 # [job 3 900 0 0 0]"
    "cpu_task ?s3 = None" "ready_queue ?s3 = job 2 700 0 0 0 # [job 3 900 0 0 0]"
    by (simp_all add: init_state_def)
  have a1: "rr_scheduler 10 1500 ?s1 =
      ?s1\<lparr>cpu_task := Some (?p\<lparr>ellapsed_time_ms := ellapsed_time_ms ?p + 10,
                                slice_start_ms := 1500\<rparr>)\<rparr>"
    using rr_quantum_expiry [of ?s1 ?p 10 1500] h c(1,2) by blast
  have a2: "rr_scheduler 10 1500 ?s2 =
      ?s2\<lparr>ready_queue := [job 3 900 0 0 0] @ [?p\<lparr>ellapsed_time_ms := ellapsed_time_ms ?p + 10\<rparr>],
          cpu_task := Some ((job 2 700 0 0 0)\<lparr>slice_start_ms := 1500\<rparr>)\<rparr>"
    using rr_quantum_expiry [of ?s2 ?p 10 1500 "job 2 700 0 0 0" "[job 3 900 0 0 0]"] h c(3,4)
    by blast
  have a3: "rr_scheduler 10 1500 ?s3 =
      ?s3\<lparr>cpu_task := Some ((job 2 700 0 0 0)\<lparr>slice_start_ms := 1500\<rparr>),
          ready_queue := [job 3 900 0 0 0]\<rparr>"
    using rr_quantum_expiry [of ?s3 ?p 10 1500 "job 2 700 0 0 0" "[job 3 900 0 0 0]"] c(5,6)
    by blast
  show ?thesis
    unfolding a1 a2 a3 by (simp add: init_state_def job_def)
qed

section \<open>Multi-level feedback queue\<close>

subsection \<open>The tier of one process over a run\<close>

lemma mlfq_tracked_eq:
  "mlfq_tracked x k s =
     (length (pcbs_of x s) \<le> 1
      \<and> list_all (\<lambda>q. priority_level q = k) (pcbs_of x s)
      \<and> list_all (\<lambda>q. pid q = x \<longrightarrow> priority_level q = 0) (levels s 0)
      \<and> list_all (\<lambda>q. pid q = x \<longrightarrow> priority_level q = 1) (levels s 1)
      \<and> list_all (\<lambda>q. pid q = x \<longrightarrow> priority_level q = 2) (levels s 2))"
  unfolding mlfq_tracked_def upt_NUM_QUEUES by simp


lemma filter_reset:
  "filter (\<lambda>q. pid q = x)
     (map (\<lambda>p. p\<lparr>priority_level := 0, ellapsed_time_ms := 0, slice_start_ms := 0\<rparr>) new) =
   map (\<lambda>p. p\<lparr>priority_level := 0, ellapsed_time_ms := 0, slice_start_ms := 0\<rparr>)
     (filter (\<lambda>q. pid q = x) new)"
  by (induction new) simp_all

lemma mlfq_tracked_admit:
  assumes tr: "mlfq_tracked x k s"
    and one: "length (pcbs_of x s @ filter (\<lambda>q. pid q = x) (admitted evs)) \<le> 1"
    and top: "filter (\<lambda>q. pid q = x) (admitted evs) \<noteq> [] \<longrightarrow> k = 0"
  shows "mlfq_tracked x k (check_new_commands SCHED_MLFQ evs s)"
    and "length (pcbs_of x (check_new_commands SCHED_MLFQ evs s)) =
         length (pcbs_of x s) + length (filter (\<lambda>q. pid q = x) (admitted evs))"
proof -
  have l0: "list_all (\<lambda>q. pid q = x \<longrightarrow> priority_level q = 0)
      (map (\<lambda>p. p\<lparr>priority_level := 0, ellapsed_time_ms := 0, slice_start_ms := 0\<rparr>)
        (admitted evs))"
    by (simp add: list_all_iff)
  have lk: "list_all (\<lambda>q. priority_level q = k)
      (map (\<lambda>p. p\<lparr>priority_level := 0, ellapsed_time_ms := 0, slice_start_ms := 0\<rparr>)
        (filter (\<lambda>q. pid q = x) (admitted evs)))"
    using top by (cases "filter (\<lambda>q. pid q = x) (admitted evs)") (simp_all add: list_all_iff)
  show "length (pcbs_of x (check_new_commands SCHED_MLFQ evs s)) =
         length (pcbs_of x s) + length (filter (\<lambda>q. pid q = x) (admitted evs))"
    unfolding check_new_commands_mlfq pcbs_of_eq by (simp add: filter_reset)
  from tr one show "mlfq_tracked x k (check_new_commands SCHED_MLFQ evs s)"
    unfolding check_new_commands_mlfq mlfq_tracked_eq pcbs_of_eq
    by (simp add: filter_reset l0 lk)
qed

lemma mlfq_tracked_dispatch:
  assumes tr: "mlfq_tracked x k s"
  shows "mlfq_tracked x k (mlfq_dispatch t s)
    \<and> length (pcbs_of x (mlfq_dispatch t s)) = length (pcbs_of x s)"
proof (cases "cpu_task s")
  case (Some c)
  with tr show ?thesis by (simp add: mlfq_dispatch_def)
next
  case None
  from mlfq_pick_cases [of t s] show ?thesis
  proof
    assume "mlfq_pick t 0 s = s \<and> (\<forall>j<NUM_QUEUES. levels s j = [])"
    with tr None show ?thesis by (simp add: mlfq_dispatch_def)
  next
    assume "\<exists>k q qs. k < NUM_QUEUES \<and> (\<forall>j<k. levels s j = []) \<and> levels s k = q # qs \<and>
      mlfq_pick t 0 s =
        s\<lparr>levels := (levels s)(k := qs), cpu_task := Some (q\<lparr>slice_start_ms := t\<rparr>)\<rparr>"
    then obtain i h qs where i: "i < NUM_QUEUES" and li: "levels s i = h # qs"
      and eq: "mlfq_pick t 0 s =
        s\<lparr>levels := (levels s)(i := qs), cpu_task := Some (h\<lparr>slice_start_ms := t\<rparr>)\<rparr>"
      by blast
    have d: "mlfq_dispatch t s =
        s\<lparr>levels := (levels s)(i := qs), cpu_task := Some (h\<lparr>slice_start_ms := t\<rparr>)\<rparr>"
      using None eq by (simp add: mlfq_dispatch_def)
    from i have "i = 0 \<or> i = 1 \<or> i = 2" by (auto simp add: NUM_QUEUES_def)
    then show ?thesis
    proof (elim disjE)
      assume "i = 0"
      with tr None li show ?thesis
        unfolding d mlfq_tracked_eq pcbs_of_eq by (cases "pid h = x") simp_all
    next
      assume "i = 1"
      with tr None li show ?thesis
        unfolding d mlfq_tracked_eq pcbs_of_eq by (cases "pid h = x") simp_all
    next
      assume "i = 2"
      with tr None li show ?thesis
        unfolding d mlfq_tracked_eq pcbs_of_eq by (cases "pid h = x") simp_all
    qed
  qed
qed


lemma mlfq_tracked_update:
  assumes tr: "mlfq_tracked x k s" and k: "k \<le> 2"
  shows "mlfq_tracked x (min 2 (k + mlfq_expiry x TICKS_MS t s)) (mlfq_update TICKS_MS t s)
    \<and> length (pcbs_of x (mlfq_update TICKS_MS t s)) \<le> length (pcbs_of x s)"
proof (cases "cpu_task s")
  case None
  with tr k show ?thesis by (simp add: mlfq_update_def mlfq_expiry_def)
next
  case (Some c)
  show ?thesis
  proof (cases "time_ms c \<le> ellapsed_time_ms c + TICKS_MS")
    case True
    then have u: "mlfq_update TICKS_MS t s =
        s\<lparr>sent := sent s @ [done_msg (c\<lparr>ellapsed_time_ms := ellapsed_time_ms c + TICKS_MS\<rparr>) t],
          freed := freed s @ [c\<lparr>ellapsed_time_ms := ellapsed_time_ms c + TICKS_MS\<rparr>],
          cpu_task := None\<rparr>"
      using Some by (simp add: mlfq_update_def Let_def)
    have e: "mlfq_expiry x TICKS_MS t s = 0"
      using Some True by (simp add: mlfq_expiry_def quantum_expired_def)
    from tr k Some show ?thesis
      unfolding u e mlfq_tracked_eq pcbs_of_eq by (cases "pid c = x") simp_all
  next
    case run: False
    show ?thesis
    proof (cases "TIME_SLICE \<le> t - slice_start_ms c")
      case False
      then have u: "mlfq_update TICKS_MS t s =
          s\<lparr>cpu_task := Some (c\<lparr>ellapsed_time_ms := ellapsed_time_ms c + TICKS_MS\<rparr>)\<rparr>"
        using Some run by (simp add: mlfq_update_def Let_def)
      have e: "mlfq_expiry x TICKS_MS t s = 0"
        using Some False by (simp add: mlfq_expiry_def quantum_expired_def)
      from tr k Some show ?thesis
        unfolding u e mlfq_tracked_eq pcbs_of_eq by (cases "pid c = x") simp_all
    next
      case True
      define j where "j = (if priority_level c < NUM_QUEUES - 1 then priority_level c + 1
        else priority_level c)"
      define c' where "c' = c\<lparr>ellapsed_time_ms := ellapsed_time_ms c + TICKS_MS,
        priority_level := j\<rparr>"
      have u: "mlfq_update TICKS_MS t s =
          s\<lparr>levels := (levels s)(j := levels s j @ [c']), cpu_task := None\<rparr>"
        using Some run True
        by (cases c) (simp add: mlfq_update_def Let_def enqueue_pcb_def j_def c'_def)
      have pc: "pid c' = pid c" "priority_level c' = j" by (simp_all add: c'_def)
      show ?thesis
      proof (cases "pid c = x")
        case False
        then have e: "mlfq_expiry x TICKS_MS t s = 0"
          using Some by (simp add: mlfq_expiry_def)
        have "j = 0 \<or> j = 1 \<or> j = 2 \<or> 2 < j" by linarith
        then show ?thesis
          using tr k Some False pc
          unfolding u e mlfq_tracked_eq pcbs_of_eq by (elim disjE) simp_all
      next
        case px: True
        then have e: "mlfq_expiry x TICKS_MS t s = 1"
          using Some run True by (simp add: mlfq_expiry_def quantum_expired_def)
        have pk: "priority_level c = k"
          using tr Some px unfolding mlfq_tracked_eq pcbs_of_eq by simp
        have jk: "j = min 2 (k + 1)"
          using k pk by (auto simp add: j_def NUM_QUEUES_def)
        have "j = 1 \<or> j = 2" using jk k by auto
        then show ?thesis
          using tr k Some px pc
          unfolding u e jk [symmetric] mlfq_tracked_eq pcbs_of_eq by (elim disjE) simp_all
      qed
    qed
  qed
qed

lemma mlfq_tracked_tick:
  assumes tr: "mlfq_tracked x k s" and k: "k \<le> 2"
    and one: "length (pcbs_of x s @ filter (\<lambda>q. pid q = x) (admitted evs)) \<le> 1"
    and top: "filter (\<lambda>q. pid q = x) (admitted evs) \<noteq> [] \<longrightarrow> k = 0"
  shows "mlfq_tracked x (min 2 (k + mlfq_expiry x TICKS_MS t s))
      (main_tick SCHED_MLFQ TICKS_MS t evs s)
    \<and> length (pcbs_of x (main_tick SCHED_MLFQ TICKS_MS t evs s)) \<le>
        length (pcbs_of x s) + length (filter (\<lambda>q. pid q = x) (admitted evs))"
proof -
  let ?s1 = "check_new_commands SCHED_MLFQ evs s"
  have e: "mlfq_expiry x TICKS_MS t ?s1 = mlfq_expiry x TICKS_MS t s"
    by (simp add: check_new_commands_mlfq mlfq_expiry_def)
  note a = mlfq_tracked_admit [OF tr one top]
  note b = mlfq_tracked_update [OF a(1) k, of TICKS_MS t]
  note c = mlfq_tracked_dispatch [OF b [THEN conjunct1], of t]
  from a(2) b c show ?thesis
    unfolding e by (simp add: main_tick_def run_scheduler_def mlfq_scheduler_def)
qed


lemma mlfq_expiry_absent: "pcbs_of x s = [] \<Longrightarrow> mlfq_expiry x TICKS_MS t s = 0"
  unfolding pcbs_of_eq mlfq_expiry_def by (cases "cpu_task s") (simp_all split: if_splits)

lemma mlfq_tracked_run:
  "mlfq_tracked x k s \<Longrightarrow> k \<le> 2 \<Longrightarrow>
   length (pcbs_of x s @ filter (\<lambda>q. pid q = x) (admitted (concat bs))) \<le> 1 \<Longrightarrow>
   (filter (\<lambda>q. pid q = x) (admitted (concat bs)) \<noteq> [] \<longrightarrow> k = 0) \<Longrightarrow>
   mlfq_tracked x (min 2 (k + mlfq_expiries x TICKS_MS t bs s))
     (snd (main_loop SCHED_MLFQ TICKS_MS t bs s))"
proof (induction bs arbitrary: s t k)
  case Nil
  then show ?case by simp
next
  case (Cons evs rest)
  let ?F = "filter (\<lambda>q. pid q = x)"
  let ?s' = "main_tick SCHED_MLFQ TICKS_MS t evs s"
  let ?d = "mlfq_expiry x TICKS_MS t s"
  have adm: "?F (admitted (concat (evs # rest))) = ?F (admitted evs) @ ?F (admitted (concat rest))"
    by (simp add: admitted_append)
  from Cons.prems(3) have one: "length (pcbs_of x s @ ?F (admitted evs)) \<le> 1"
    unfolding adm by simp
  from Cons.prems(4) have top: "?F (admitted evs) \<noteq> [] \<longrightarrow> k = 0"
    unfolding adm by simp
  note step = mlfq_tracked_tick [OF Cons.prems(1,2) one top, of TICKS_MS t]
  have k': "min 2 (k + ?d) \<le> 2" by simp
  from step Cons.prems(3)
  have one': "length (pcbs_of x ?s' @ ?F (admitted (concat rest))) \<le> 1"
    unfolding adm by simp
  have top': "?F (admitted (concat rest)) \<noteq> [] \<longrightarrow> min 2 (k + ?d) = 0"
  proof
    assume ne: "?F (admitted (concat rest)) \<noteq> []"
    then obtain a as where "?F (admitted (concat rest)) = a # as"
      by (cases "?F (admitted (concat rest))") simp_all
    with Cons.prems(3) have "pcbs_of x s = []" unfolding adm by simp
    then have "?d = 0" by (rule mlfq_expiry_absent)
    moreover from ne Cons.prems(4) have "k = 0" unfolding adm by simp
    ultimately show "min 2 (k + ?d) = 0" by simp
  qed
  have "mlfq_tracked x
      (min 2 (min 2 (k + ?d) + mlfq_expiries x TICKS_MS (t + TICKS_MS) rest ?s'))
      (snd (main_loop SCHED_MLFQ TICKS_MS (t + TICKS_MS) rest ?s'))"
    by (rule Cons.IH [OF step [THEN conjunct1] k' one' top'])
  moreover have "min 2 (min 2 (k + ?d) + mlfq_expiries x TICKS_MS (t + TICKS_MS) rest ?s') =
      min 2 (k + mlfq_expiries x TICKS_MS t (evs # rest) s)"
    by simp
  ultimately show ?case by simp
qed

lemma mlfq_tick_ready_queue:
  "ready_queue (main_tick SCHED_MLFQ TICKS_MS t evs s) = ready_queue s"
proof -
  have d: "ready_queue (mlfq_dispatch t s') = ready_queue s'" for s'
    using mlfq_pick_cases [of t s']
    by (cases "cpu_task s'") (auto simp add: mlfq_dispatch_def)
  have u: "ready_queue (mlfq_update TICKS_MS t s') = ready_queue s'" for s'
    by (cases "cpu_task s'") (simp_all add: mlfq_update_def Let_def)
  show ?thesis
    by (simp add: main_tick_def run_scheduler_def mlfq_scheduler_def d u
        check_new_commands_mlfq)
qed

lemma mlfq_expiry_not_ready:
  assumes tr: "mlfq_tracked x k s" and ex: "mlfq_expiry x TICKS_MS t s \<noteq> 0"
  shows "filter (\<lambda>q. pid q = x) (ready_queue s) = []"
proof (cases "cpu_task s")
  case None
  with ex show ?thesis by (simp add: mlfq_expiry_def)
next
  case (Some c)
  with ex have "pid c = x" by (simp add: mlfq_expiry_def split: if_splits)
  with tr Some show ?thesis unfolding mlfq_tracked_eq pcbs_of_eq by simp
qed

lemma mlfq_expired_not_ready:
  "mlfq_tracked x k s \<Longrightarrow> k \<le> 2 \<Longrightarrow>
   length (pcbs_of x s @ filter (\<lambda>q. pid q = x) (admitted (concat bs))) \<le> 1 \<Longrightarrow>
   (filter (\<lambda>q. pid q = x) (admitted (concat bs)) \<noteq> [] \<longrightarrow> k = 0) \<Longrightarrow>
   mlfq_expiries x TICKS_MS t bs s \<noteq> 0 \<Longrightarrow>
   filter (\<lambda>q. pid q = x) (ready_queue s) = []"
proof (induction bs arbitrary: s t k)
  case Nil
  then show ?case by simp
next
  case (Cons evs rest)
  let ?F = "filter (\<lambda>q. pid q = x)"
  let ?s' = "main_tick SCHED_MLFQ TICKS_MS t evs s"
  let ?d = "mlfq_expiry x TICKS_MS t s"
  show ?case
  proof (cases "?d = 0")
    case False
    with Cons.prems(1) show ?thesis by (rule mlfq_expiry_not_ready)
  next
    case True
    with Cons.prems(5) have ex': "mlfq_expiries x TICKS_MS (t + TICKS_MS) rest ?s' \<noteq> 0"
      by simp
    have adm: "?F (admitted (concat (evs # rest))) =
        ?F (admitted evs) @ ?F (admitted (concat rest))"
      by (simp add: admitted_append)
    from Cons.prems(3) have one: "length (pcbs_of x s @ ?F (admitted evs)) \<le> 1"
      unfolding adm by simp
    from Cons.prems(4) have top: "?F (admitted evs) \<noteq> [] \<longrightarrow> k = 0"
      unfolding adm by simp
    note step = mlfq_tracked_tick [OF Cons.prems(1,2) one top, of TICKS_MS t]
    from step have tr': "mlfq_tracked x k ?s'"
      using True Cons.prems(2) by simp
    from step Cons.prems(3)
    have one': "length (pcbs_of x ?s' @ ?F (admitted (concat rest))) \<le> 1"
      unfolding adm by simp
    from Cons.prems(4) have top': "?F (admitted (concat rest)) \<noteq> [] \<longrightarrow> k = 0"
      unfolding adm by simp
    have "?F (ready_queue ?s') = []"
      by (rule Cons.IH [OF tr' Cons.prems(2) one' top' ex'])
    then show ?thesis by (simp add: mlfq_tick_ready_queue)
  qed
qed

lemma mlfq_run_ready_queue:
  "ready_queue (snd (main_loop SCHED_MLFQ TICKS_MS t bs s)) = ready_queue s"
  by (induction bs arbitrary: s t) (simp_all add: mlfq_tick_ready_queue)

lemma mlfq_expiry_redispatch:
  assumes cpu: "cpu_task s = Some p" and lvl: "priority_level p < NUM_QUEUES"
    and run: "\<not> time_ms p \<le> ellapsed_time_ms p + TICKS_MS"
    and ex: "TIME_SLICE \<le> t - slice_start_ms p"
    and k: "k = (if priority_level p < NUM_QUEUES - 1 then priority_level p + 1
                 else priority_level p)"
    and emp: "\<forall>j\<le>k. levels s j = []"
  shows "mlfq_scheduler TICKS_MS t s =
     s\<lparr>cpu_task := Some (p\<lparr>ellapsed_time_ms := ellapsed_time_ms p + TICKS_MS,
                            priority_level := k, slice_start_ms := t\<rparr>)\<rparr>"
proof -
  define p' where "p' = p\<lparr>ellapsed_time_ms := ellapsed_time_ms p + TICKS_MS,
    priority_level := k\<rparr>"
  define s1 where "s1 = s\<lparr>levels := (levels s)(k := [p']), cpu_task := None\<rparr>"
  from emp have ek: "levels s k = []" by simp
  have kq: "k < NUM_QUEUES" using lvl k by (simp add: NUM_QUEUES_def)
  have "mlfq_update TICKS_MS t s =
      s\<lparr>levels := (levels s)(k := levels s k @ [p']), cpu_task := None\<rparr>"
    using cpu run ex
    by (cases p) (auto simp add: mlfq_update_def Let_def enqueue_pcb_def k p'_def)
  then have u: "mlfq_update TICKS_MS t s = s1"
    using ek by (simp add: s1_def)
  have "mlfq_pick t 0 s1 =
      s1\<lparr>levels := (levels s1)(k := []), cpu_task := Some (p'\<lparr>slice_start_ms := t\<rparr>)\<rparr>"
    using kq emp by (intro mlfq_pick_first) (simp_all add: s1_def)
  then have "mlfq_dispatch t s1 =
      s1\<lparr>levels := (levels s1)(k := []), cpu_task := Some (p'\<lparr>slice_start_ms := t\<rparr>)\<rparr>"
    by (simp add: mlfq_dispatch_def s1_def)
  moreover have "(levels s)(k := []) = levels s" using ek by (simp add: fun_upd_idem)
  ultimately show ?thesis
    unfolding mlfq_scheduler_def u by (simp add: s1_def p'_def)
qed

text \<open>
  C5. Under MLFQ, when the quantum of 500 ms of the running PCB has expired and its burst
  is not complete, the PCB moves down exactly one tier unless it is in the last of the
  three tiers (tier 2), is appended to the queue of the tier it now has, and the CPU slot
  is vacated; if nothing waits in that tier or above it, the same invocation gives it the
  CPU again, in its new tier. Over any run of the main loop, for any tick length: let
  process \<open>x\<close> have at most one PCB among those held at the start and those admitted
  during the run, at priority level 0 (where admission puts it), and let \<open>n\<close> be the
  number of ticks of the run at which the quantum of \<open>x\<close> expired with its burst not
  complete. After the run the PCB of \<open>x\<close>, if it is still held, has priority level
  \<open>min 2 n\<close> and, if it waits in a tier, waits in that one: the level changes at the
  expiries only, not while the PCB waits, at a dispatch or at the other ticks on the CPU.
  So after two expiries the PCB has level 2 and is in the queue of tier 2 or on the CPU
  (no PCB of \<open>x\<close> is in the ready queue or in tiers 0 and 1), and the same holds after
  every further expiry.
\<close>

theorem mlfq_quantum_demotion:
  "(cpu_task s = Some p \<and> priority_level p < NUM_QUEUES
      \<and> \<not> time_ms p \<le> ellapsed_time_ms p + TICKS_MS
      \<and> TIME_SLICE \<le> t - slice_start_ms p \<longrightarrow>
    (let k = (if priority_level p < NUM_QUEUES - 1 then priority_level p + 1
              else priority_level p);
         p' = p\<lparr>ellapsed_time_ms := ellapsed_time_ms p + TICKS_MS, priority_level := k\<rparr>
     in mlfq_update TICKS_MS t s =
          s\<lparr>levels := (levels s)(k := levels s k @ [p']), cpu_task := None\<rparr>
        \<and> (priority_level p = 0 \<longrightarrow> k = 1) \<and> (priority_level p = 1 \<longrightarrow> k = 2)
        \<and> (priority_level p = 2 \<longrightarrow> k = 2) \<and> k < NUM_QUEUES
        \<and> TIME_SLICE = 500 \<and> NUM_QUEUES = 3
        \<and> ((\<forall>j\<le>k. levels s j = []) \<longrightarrow>
             mlfq_scheduler TICKS_MS t s = s\<lparr>cpu_task := Some (p'\<lparr>slice_start_ms := t\<rparr>)\<rparr>)))
   \<and> (\<forall>x bs. mlfq_tracked x 0 s
         \<and> length (pcbs_of x s @ filter (\<lambda>q. pid q = x) (admitted (concat bs))) \<le> 1 \<longrightarrow>
       (let n = mlfq_expiries x TICKS_MS t bs s;
            s' = snd (main_loop SCHED_MLFQ TICKS_MS t bs s)
        in mlfq_tracked x (min 2 n) s'
           \<and> (2 \<le> n \<longrightarrow> list_all (\<lambda>q. priority_level q = 2) (pcbs_of x s')
                 \<and> list_all (\<lambda>q. pid q \<noteq> x) (ready_queue s' @ levels s' 0 @ levels s' 1))))"
proof (rule conjI)
  show "cpu_task s = Some p \<and> priority_level p < NUM_QUEUES
      \<and> \<not> time_ms p \<le> ellapsed_time_ms p + TICKS_MS
      \<and> TIME_SLICE \<le> t - slice_start_ms p \<longrightarrow>
    (let k = (if priority_level p < NUM_QUEUES - 1 then priority_level p + 1
              else priority_level p);
         p' = p\<lparr>ellapsed_time_ms := ellapsed_time_ms p + TICKS_MS, priority_level := k\<rparr>
     in mlfq_update TICKS_MS t s =
          s\<lparr>levels := (levels s)(k := levels s k @ [p']), cpu_task := None\<rparr>
        \<and> (priority_level p = 0 \<longrightarrow> k = 1) \<and> (priority_level p = 1 \<longrightarrow> k = 2)
        \<and> (priority_level p = 2 \<longrightarrow> k = 2) \<and> k < NUM_QUEUES
        \<and> TIME_SLICE = 500 \<and> NUM_QUEUES = 3
        \<and> ((\<forall>j\<le>k. levels s j = []) \<longrightarrow>
             mlfq_scheduler TICKS_MS t s = s\<lparr>cpu_task := Some (p'\<lparr>slice_start_ms := t\<rparr>)\<rparr>))"
  proof
    assume h: "cpu_task s = Some p \<and> priority_level p < NUM_QUEUES
      \<and> \<not> time_ms p \<le> ellapsed_time_ms p + TICKS_MS
      \<and> TIME_SLICE \<le> t - slice_start_ms p"
    define k where "k = (if priority_level p < NUM_QUEUES - 1 then priority_level p + 1
              else priority_level p)"
    have a: "mlfq_update TICKS_MS t s =
          s\<lparr>levels := (levels s)(k := levels s k @
              [p\<lparr>ellapsed_time_ms := ellapsed_time_ms p + TICKS_MS, priority_level := k\<rparr>]),
            cpu_task := None\<rparr>"
      using h
      by (cases p) (auto simp add: mlfq_update_def enqueue_pcb_def Let_def k_def)
    have b: "(priority_level p = 0 \<longrightarrow> k = 1) \<and> (priority_level p = 1 \<longrightarrow> k = 2)
        \<and> (priority_level p = 2 \<longrightarrow> k = 2) \<and> k < NUM_QUEUES
        \<and> TIME_SLICE = 500 \<and> NUM_QUEUES = 3"
      using h by (auto simp add: k_def NUM_QUEUES_def TIME_SLICE_def)
    have c: "(\<forall>j\<le>k. levels s j = []) \<longrightarrow>
        mlfq_scheduler TICKS_MS t s =
          s\<lparr>cpu_task := Some (p\<lparr>ellapsed_time_ms := ellapsed_time_ms p + TICKS_MS,
               priority_level := k\<rparr>\<lparr>slice_start_ms := t\<rparr>)\<rparr>"
    proof
      assume emp: "\<forall>j\<le>k. levels s j = []"
      from h have "mlfq_scheduler TICKS_MS t s =
         s\<lparr>cpu_task := Some (p\<lparr>ellapsed_time_ms := ellapsed_time_ms p + TICKS_MS,
                            priority_level := k, slice_start_ms := t\<rparr>)\<rparr>"
        by (intro mlfq_expiry_redispatch [OF _ _ _ _ k_def emp]) simp_all
      then show "mlfq_scheduler TICKS_MS t s =
          s\<lparr>cpu_task := Some (p\<lparr>ellapsed_time_ms := ellapsed_time_ms p + TICKS_MS,
               priority_level := k\<rparr>\<lparr>slice_start_ms := t\<rparr>)\<rparr>"
        by simp
    qed
    from a b c show "(let k = (if priority_level p < NUM_QUEUES - 1 then priority_level p + 1
              else priority_level p);
         p' = p\<lparr>ellapsed_time_ms := ellapsed_time_ms p + TICKS_MS, priority_level := k\<rparr>
     in mlfq_update TICKS_MS t s =
          s\<lparr>levels := (levels s)(k := levels s k @ [p']), cpu_task := None\<rparr>
        \<and> (priority_level p = 0 \<longrightarrow> k = 1) \<and> (priority_level p = 1 \<longrightarrow> k = 2)
        \<and> (priority_level p = 2 \<longrightarrow> k = 2) \<and> k < NUM_QUEUES
        \<and> TIME_SLICE = 500 \<and> NUM_QUEUES = 3
        \<and> ((\<forall>j\<le>k. levels s j = []) \<longrightarrow>
             mlfq_scheduler TICKS_MS t s = s\<lparr>cpu_task := Some (p'\<lparr>slice_start_ms := t\<rparr>)\<rparr>))"
      unfolding Let_def k_def [symmetric] by (intro conjI) simp_all
  qed
next
  show "\<forall>x bs. mlfq_tracked x 0 s
         \<and> length (pcbs_of x s @ filter (\<lambda>q. pid q = x) (admitted (concat bs))) \<le> 1 \<longrightarrow>
       (let n = mlfq_expiries x TICKS_MS t bs s;
            s' = snd (main_loop SCHED_MLFQ TICKS_MS t bs s)
        in mlfq_tracked x (min 2 n) s'
           \<and> (2 \<le> n \<longrightarrow> list_all (\<lambda>q. priority_level q = 2) (pcbs_of x s')
                 \<and> list_all (\<lambda>q. pid q \<noteq> x) (ready_queue s' @ levels s' 0 @ levels s' 1)))"
  proof (intro allI impI)
    fix x :: int and bs :: "msg_event list list"
    assume h: "mlfq_tracked x 0 s
         \<and> length (pcbs_of x s @ filter (\<lambda>q. pid q = x) (admitted (concat bs))) \<le> 1"
    define n where "n = mlfq_expiries x TICKS_MS t bs s"
    define s' where "s' = snd (main_loop SCHED_MLFQ TICKS_MS t bs s)"
    from h have tr: "mlfq_tracked x (min 2 n) s'"
      using mlfq_tracked_run [of x 0 s bs TICKS_MS t] by (simp add: n_def s'_def)
    have "list_all (\<lambda>q. priority_level q = 2) (pcbs_of x s')
        \<and> list_all (\<lambda>q. pid q \<noteq> x) (ready_queue s' @ levels s' 0 @ levels s' 1)" if "2 \<le> n"
    proof -
      from that have "min 2 n = 2" by simp
      with tr have t2: "mlfq_tracked x 2 s'" by simp
      from that have "mlfq_expiries x TICKS_MS t bs s \<noteq> 0" by (simp add: n_def)
      with h have "filter (\<lambda>q. pid q = x) (ready_queue s) = []"
        using mlfq_expired_not_ready [of x 0 s bs TICKS_MS t] by simp
      then have "filter (\<lambda>q. pid q = x) (ready_queue s') = []"
        by (simp add: s'_def mlfq_run_ready_queue)
      then have rq: "list_all (\<lambda>q. pid q \<noteq> x) (ready_queue s')"
        by (simp add: filter_empty_conv list_all_iff)
      from t2 have "list_all (\<lambda>q. priority_level q = 2) (pcbs_of x s')
          \<and> list_all (\<lambda>q. pid q \<noteq> x) (levels s' 0 @ levels s' 1)"
        unfolding mlfq_tracked_eq pcbs_of_eq by (auto simp add: list_all_iff)
      with rq show ?thesis by simp
    qed
    with tr show "let n = mlfq_expiries x TICKS_MS t bs s;
            s' = snd (main_loop SCHED_MLFQ TICKS_MS t bs s)
        in mlfq_tracked x (min 2 n) s'
           \<and> (2 \<le> n \<longrightarrow> list_all (\<lambda>q. priority_level q = 2) (pcbs_of x s')
                 \<and> list_all (\<lambda>q. pid q \<noteq> x) (ready_queue s' @ levels s' 0 @ levels s' 1))"
      unfolding Let_def n_def [symmetric] s'_def [symmetric] by blast
  qed
qed

theorem mlfq_quantum_demotion_witness:
  "mlfq_update 100 500 (init_state\<lparr>cpu_task := Some (job 1 1800 400 0 0)\<rparr>) =
     init_state\<lparr>levels := (\<lambda>i. [])(1 := [job 1 1800 500 0 1])\<rparr>
   \<and> mlfq_update 100 1000 (init_state\<lparr>cpu_task := Some (job 1 1800 900 500 1)\<rparr>) =
     init_state\<lparr>levels := (\<lambda>i. [])(2 := [job 1 1800 1000 500 2])\<rparr>
   \<and> mlfq_update 100 1500 (init_state\<lparr>cpu_task := Some (job 1 1800 1400 1000 2)\<rparr>) =
     init_state\<lparr>levels := (\<lambda>i. [])(2 := [job 1 1800 1500 1000 2])\<rparr>
   \<and> mlfq_scheduler 100 500 (init_state\<lparr>cpu_task := Some (job 1 1800 400 0 0)\<rparr>) =
     init_state\<lparr>cpu_task := Some (job 1 1800 500 500 1)\<rparr>
   \<and> mlfq_expiries 1 100 0 (take 6 mlfq_sample_run) init_state = 1
   \<and> held (snd (main_loop SCHED_MLFQ 100 0 (take 6 mlfq_sample_run) init_state)) =
       [job 1 2500 500 500 1]
   \<and> mlfq_expiries 1 100 0 (take 11 mlfq_sample_run) init_state = 2
   \<and> held (snd (main_loop SCHED_MLFQ 100 0 (take 11 mlfq_sample_run) init_state)) =
       [job 1 2500 1000 1000 2]
   \<and> mlfq_expiries 1 100 0 mlfq_sample_run init_state = 3
   \<and> held (snd (main_loop SCHED_MLFQ 100 0 mlfq_sample_run init_state)) =
       [job 1 2500 1500 1500 2]
   \<and> list_all (\<lambda>q. priority_level q = 2)
       (pcbs_of 1 (snd (main_loop SCHED_MLFQ 100 0 mlfq_sample_run init_state)))
   \<and> list_all (\<lambda>q. pid q \<noteq> 1)
       (ready_queue (snd (main_loop SCHED_MLFQ 100 0 mlfq_sample_run init_state))
        @ levels (snd (main_loop SCHED_MLFQ 100 0 mlfq_sample_run init_state)) 0
        @ levels (snd (main_loop SCHED_MLFQ 100 0 mlfq_sample_run init_state)) 1)"
proof -
  have one: "mlfq_update 100 500 (init_state\<lparr>cpu_task := Some (job 1 1800 400 0 0)\<rparr>) =
       init_state\<lparr>levels := (\<lambda>i. [])(1 := [job 1 1800 500 0 1])\<rparr>
     \<and> mlfq_update 100 1000 (init_state\<lparr>cpu_task := Some (job 1 1800 900 500 1)\<rparr>) =
       init_state\<lparr>levels := (\<lambda>i. [])(2 := [job 1 1800 1000 500 2])\<rparr>
     \<and> mlfq_update 100 1500 (init_state\<lparr>cpu_task := Some (job 1 1800 1400 1000 2)\<rparr>) =
       init_state\<lparr>levels := (\<lambda>i. [])(2 := [job 1 1800 1500 1000 2])\<rparr>
     \<and> mlfq_scheduler 100 500 (init_state\<lparr>cpu_task := Some (job 1 1800 400 0 0)\<rparr>) =
       init_state\<lparr>cpu_task := Some (job 1 1800 500 500 1)\<rparr>"
    using mlfq_quantum_demotion [of "init_state\<lparr>cpu_task := Some (job 1 1800 400 0 0)\<rparr>"
        "job 1 1800 400 0 0" 100 500, THEN conjunct1]
      mlfq_quantum_demotion [of "init_state\<lparr>cpu_task := Some (job 1 1800 900 500 1)\<rparr>"
        "job 1 1800 900 500 1" 100 1000, THEN conjunct1]
      mlfq_quantum_demotion [of "init_state\<lparr>cpu_task := Some (job 1 1800 1400 1000 2)\<rparr>"
        "job 1 1800 1400 1000 2" 100 1500, THEN conjunct1]
    by (simp add: init_state_def job_def TIME_SLICE_def NUM_QUEUES_def Let_def
        numeral_2_eq_2 [symmetric])
  have run: "mlfq_expiries 1 100 0 (take 6 mlfq_sample_run) init_state = 1"
    "held (snd (main_loop SCHED_MLFQ 100 0 (take 6 mlfq_sample_run) init_state)) =
       [job 1 2500 500 500 1]"
    "mlfq_expiries 1 100 0 (take 11 mlfq_sample_run) init_state = 2"
    "held (snd (main_loop SCHED_MLFQ 100 0 (take 11 mlfq_sample_run) init_state)) =
       [job 1 2500 1000 1000 2]"
    "mlfq_expiries 1 100 0 mlfq_sample_run init_state = 3"
    "held (snd (main_loop SCHED_MLFQ 100 0 mlfq_sample_run init_state)) =
       [job 1 2500 1500 1500 2]"
    unfolding held_def queued_def upt_NUM_QUEUES
    by (simp_all add: mlfq_sample_run_def init_state_def stale_block_def run_msg_def job_def
        main_tick_def run_scheduler_def mlfq_scheduler_def mlfq_update_def mlfq_dispatch_def
        mlfq_pick.simps handle_msg_def run_request_def new_pcb_def enqueue_mlfq_def
        enqueue_pcb_def dequeue_pcb_def mlfq_expiry_def quantum_expired_def TIME_SLICE_def
        NUM_QUEUES_def Let_def fun_upd_def)
  have hyp: "mlfq_tracked 1 0 init_state
      \<and> length (pcbs_of 1 init_state
          @ filter (\<lambda>q. pid q = 1) (admitted (concat mlfq_sample_run))) \<le> 1"
    unfolding mlfq_tracked_eq pcbs_of_eq
    by (simp add: init_state_def admitted_def mlfq_sample_run_def run_msg_def stale_block_def)
  have two: "list_all (\<lambda>q. priority_level q = 2)
       (pcbs_of 1 (snd (main_loop SCHED_MLFQ 100 0 mlfq_sample_run init_state)))
     \<and> list_all (\<lambda>q. pid q \<noteq> 1)
       (ready_queue (snd (main_loop SCHED_MLFQ 100 0 mlfq_sample_run init_state))
        @ levels (snd (main_loop SCHED_MLFQ 100 0 mlfq_sample_run init_state)) 0
        @ levels (snd (main_loop SCHED_MLFQ 100 0 mlfq_sample_run init_state)) 1)"
    using mlfq_quantum_demotion [of init_state "job 1 2500 0 0 0" 100 0, THEN conjunct2,
        rule_format, OF hyp]
    unfolding Let_def run(5) by simp
  from one run two show ?thesis by (intro conjI) blast+
qed

text \<open>
  C6. Under MLFQ, when the CPU slot is empty after the running PCB was accounted for, the
  scheduler takes the head of the first non-empty tier in the order 0, 1, 2, puts it in
  the slot with its slice start set to the current tick, and leaves every other tier as
  it was; with all tiers empty nothing changes. So whenever the dispatch takes a PCB out
  of a tier, every tier of higher priority was empty.
\<close>

theorem mlfq_dispatch_strict_priority:
  "cpu_task (mlfq_update TICKS_MS t s) = None \<Longrightarrow>
   (\<forall>k q qs. k < NUM_QUEUES \<and> (\<forall>j<k. levels (mlfq_update TICKS_MS t s) j = [])
        \<and> levels (mlfq_update TICKS_MS t s) k = q # qs \<longrightarrow>
      mlfq_scheduler TICKS_MS t s =
        (mlfq_update TICKS_MS t s)
          \<lparr>levels := (levels (mlfq_update TICKS_MS t s))(k := qs),
           cpu_task := Some (q\<lparr>slice_start_ms := t\<rparr>)\<rparr>)
   \<and> ((\<forall>j<NUM_QUEUES. levels (mlfq_update TICKS_MS t s) j = []) \<longrightarrow>
        mlfq_scheduler TICKS_MS t s = mlfq_update TICKS_MS t s)
   \<and> (\<forall>i j. levels (mlfq_scheduler TICKS_MS t s) i \<noteq> levels (mlfq_update TICKS_MS t s) i
          \<and> j < i \<longrightarrow> levels (mlfq_update TICKS_MS t s) j = [])"
proof -
  assume free: "cpu_task (mlfq_update TICKS_MS t s) = None"
  define s1 where "s1 = mlfq_update TICKS_MS t s"
  have sched: "mlfq_scheduler TICKS_MS t s = mlfq_pick t 0 s1"
    using free by (simp add: mlfq_scheduler_def mlfq_dispatch_def s1_def)
  have a: "\<forall>k q qs. k < NUM_QUEUES \<and> (\<forall>j<k. levels s1 j = []) \<and> levels s1 k = q # qs \<longrightarrow>
      mlfq_pick t 0 s1 = s1\<lparr>levels := (levels s1)(k := qs),
                            cpu_task := Some (q\<lparr>slice_start_ms := t\<rparr>)\<rparr>"
    by (auto intro!: mlfq_pick_first)
  have b: "(\<forall>j<NUM_QUEUES. levels s1 j = []) \<longrightarrow> mlfq_pick t 0 s1 = s1"
    by (auto intro!: mlfq_pick_none)
  have c: "\<forall>i j. levels (mlfq_pick t 0 s1) i \<noteq> levels s1 i \<and> j < i \<longrightarrow> levels s1 j = []"
  proof (intro allI impI)
    fix i j assume h: "levels (mlfq_pick t 0 s1) i \<noteq> levels s1 i \<and> j < i"
    from mlfq_pick_cases [of t s1] show "levels s1 j = []"
    proof
      assume "mlfq_pick t 0 s1 = s1 \<and> (\<forall>j<NUM_QUEUES. levels s1 j = [])"
      with h show ?thesis by simp
    next
      assume "\<exists>k q qs. k < NUM_QUEUES \<and> (\<forall>j<k. levels s1 j = []) \<and> levels s1 k = q # qs \<and>
        mlfq_pick t 0 s1 =
          s1\<lparr>levels := (levels s1)(k := qs), cpu_task := Some (q\<lparr>slice_start_ms := t\<rparr>)\<rparr>"
      then obtain k q qs where k: "\<forall>j<k. levels s1 j = []"
        and eq: "mlfq_pick t 0 s1 =
          s1\<lparr>levels := (levels s1)(k := qs), cpu_task := Some (q\<lparr>slice_start_ms := t\<rparr>)\<rparr>"
        by blast
      from h eq have "i = k" by (auto split: if_splits)
      with h k show ?thesis by simp
    qed
  qed
  from a b c show ?thesis unfolding sched s1_def by blast
qed

theorem mlfq_dispatch_strict_priority_witness:
  "cpu_task (mlfq_update 10 700
      (init_state\<lparr>levels := (\<lambda>i. [])(1 := [job 1 900 500 0 1, job 2 800 500 100 1],
                                       2 := [job 3 5000 1000 200 2])\<rparr>)) = None
   \<and> cpu_task (mlfq_scheduler 10 700
      (init_state\<lparr>levels := (\<lambda>i. [])(1 := [job 1 900 500 0 1, job 2 800 500 100 1],
                                       2 := [job 3 5000 1000 200 2])\<rparr>)) =
     Some (job 1 900 500 700 1)
   \<and> map (levels (mlfq_scheduler 10 700
      (init_state\<lparr>levels := (\<lambda>i. [])(1 := [job 1 900 500 0 1, job 2 800 500 100 1],
                                       2 := [job 3 5000 1000 200 2])\<rparr>))) [0, 1, 2] =
     [[], [job 2 800 500 100 1], [job 3 5000 1000 200 2]]"
proof -
  let ?s = "init_state\<lparr>levels := (\<lambda>i. [])(1 := [job 1 900 500 0 1, job 2 800 500 100 1],
                                         2 := [job 3 5000 1000 200 2])\<rparr>"
  have u: "mlfq_update 10 700 ?s = ?s"
    by (simp add: mlfq_update_def init_state_def)
  have free: "cpu_task (mlfq_update 10 700 ?s) = None"
    unfolding u by (simp add: init_state_def)
  have pre: "1 < NUM_QUEUES \<and> (\<forall>j<1. levels (mlfq_update 10 700 ?s) j = [])
     \<and> levels (mlfq_update 10 700 ?s) 1 = job 1 900 500 0 1 # [job 2 800 500 100 1]"
    unfolding u by (simp add: init_state_def NUM_QUEUES_def)
  from mlfq_dispatch_strict_priority [OF free] pre
  have run: "mlfq_scheduler 10 700 ?s =
      (mlfq_update 10 700 ?s)
        \<lparr>levels := (levels (mlfq_update 10 700 ?s))(1 := [job 2 800 500 100 1]),
         cpu_task := Some ((job 1 900 500 0 1)\<lparr>slice_start_ms := 700\<rparr>)\<rparr>"
    by blast
  have "cpu_task (mlfq_scheduler 10 700 ?s) = Some (job 1 900 500 700 1)
    \<and> map (levels (mlfq_scheduler 10 700 ?s)) [0, 1, 2] =
       [[], [job 2 800 500 100 1], [job 3 5000 1000 200 2]]"
    unfolding run u by (simp add: init_state_def job_def)
  with free show ?thesis by blast
qed


section \<open>Round-Robin over several ticks\<close>

lemma u32_not_le_of_nat: "x < c \<Longrightarrow> c < 2 ^ 32 \<Longrightarrow> \<not> (of_nat c :: u32) \<le> of_nat x"
  by (simp add: word_le_nat_alt unat_of_nat take_bit_nat_eq_self)

lemma u32_le_of_nat: "c \<le> x \<Longrightarrow> x < 2 ^ 32 \<Longrightarrow> (of_nat c :: u32) \<le> of_nat x"
  by (simp add: word_le_nat_alt unat_of_nat take_bit_nat_eq_self)

lemma rr_keeps_running:
  "cpu_task s = Some p \<Longrightarrow> length bs = n \<Longrightarrow>
   (\<forall>k<n. \<not> time_ms p \<le> ellapsed_time_ms p + of_nat (Suc k) * TICKS_MS) \<Longrightarrow>
   (\<forall>k<n. \<not> TIME_SLICE \<le> t + of_nat k * TICKS_MS - slice_start_ms p) \<Longrightarrow>
   main_loop SCHED_RR TICKS_MS t bs s =
     (t + of_nat n * TICKS_MS,
      s\<lparr>ready_queue := ready_queue s @ admitted (concat bs),
        cpu_task := Some (p\<lparr>ellapsed_time_ms := ellapsed_time_ms p + of_nat n * TICKS_MS\<rparr>)\<rparr>)"
proof (induction bs arbitrary: s p t n)
  case Nil
  then show ?case by (cases s) (simp add: admitted_def)
next
  case (Cons b bs)
  then obtain n' where n: "n = Suc n'" by (cases n) auto
  let ?p1 = "p\<lparr>ellapsed_time_ms := ellapsed_time_ms p + TICKS_MS\<rparr>"
  let ?s1 = "s\<lparr>ready_queue := ready_queue s @ admitted b, cpu_task := Some ?p1\<rparr>"
  from Cons.prems(3) n have nd: "\<not> time_ms p \<le> ellapsed_time_ms p + TICKS_MS"
    by (auto dest: spec [of _ 0])
  from Cons.prems(4) n have ne: "\<not> TIME_SLICE \<le> t - slice_start_ms p"
    by (auto dest: spec [of _ 0])
  have tick: "main_tick SCHED_RR TICKS_MS t b s = ?s1"
    using Cons.prems(1) nd ne
    by (simp add: main_tick_def check_new_commands_ready run_scheduler_def rr_scheduler_def
        rr_update_def rr_dispatch_def Let_def)
  have c1: "cpu_task ?s1 = Some ?p1" by simp
  have l1: "length bs = n'" using Cons.prems(2) n by simp
  have d1: "\<forall>k<n'. \<not> time_ms ?p1 \<le> ellapsed_time_ms ?p1 + of_nat (Suc k) * TICKS_MS"
  proof (intro allI impI)
    fix k assume "k < n'"
    with Cons.prems(3) n have "\<not> time_ms p \<le> ellapsed_time_ms p + of_nat (Suc (Suc k)) * TICKS_MS"
      by auto
    then show "\<not> time_ms ?p1 \<le> ellapsed_time_ms ?p1 + of_nat (Suc k) * TICKS_MS"
      by (simp add: algebra_simps)
  qed
  have e1: "\<forall>k<n'. \<not> TIME_SLICE \<le> t + TICKS_MS + of_nat k * TICKS_MS - slice_start_ms ?p1"
  proof (intro allI impI)
    fix k assume "k < n'"
    with Cons.prems(4) n have "\<not> TIME_SLICE \<le> t + of_nat (Suc k) * TICKS_MS - slice_start_ms p"
      by auto
    then show "\<not> TIME_SLICE \<le> t + TICKS_MS + of_nat k * TICKS_MS - slice_start_ms ?p1"
      by (simp add: algebra_simps)
  qed
  show ?case
    using Cons.IH [OF c1 l1 d1 e1]
    by (simp add: tick n admitted_def algebra_simps)
qed

lemma rr_grant_runs:
  fixes T :: nat
  assumes cpu: "cpu_task s = Some p" and ss: "slice_start_ms p = t0"
    and el: "ellapsed_time_ms p = of_nat e" and len: "length bs = n"
    and slice: "n * T < 500" and dur: "e + n * T < d" and d: "time_ms p = of_nat d" "d < 2 ^ 32"
  shows "main_loop SCHED_RR (of_nat T) (t0 + of_nat T) bs s =
     (t0 + of_nat T + of_nat (n * T),
      s\<lparr>ready_queue := ready_queue s @ admitted (concat bs),
        cpu_task := Some (p\<lparr>ellapsed_time_ms := of_nat (e + n * T)\<rparr>)\<rparr>)"
proof -
  have a: "\<forall>k<n. \<not> time_ms p \<le> ellapsed_time_ms p + of_nat (Suc k) * of_nat T"
  proof (intro allI impI)
    fix k assume k: "k < n"
    then have "Suc k * T \<le> n * T" by (intro mult_le_mono1) simp
    with dur have "e + Suc k * T < d" by simp
    then have "\<not> (of_nat d :: u32) \<le> of_nat (e + Suc k * T)"
      using d(2) by (rule u32_not_le_of_nat)
    then show "\<not> time_ms p \<le> ellapsed_time_ms p + of_nat (Suc k) * of_nat T"
      by (simp add: el d(1) algebra_simps)
  qed
  have b: "\<forall>k<n. \<not> TIME_SLICE \<le> t0 + of_nat T + of_nat k * of_nat T - slice_start_ms p"
  proof (intro allI impI)
    fix k assume k: "k < n"
    then have "Suc k * T \<le> n * T" by (intro mult_le_mono1) simp
    with slice have "Suc k * T < 500" by simp
    then have "\<not> (of_nat 500 :: u32) \<le> of_nat (Suc k * T)"
      by (rule u32_not_le_of_nat) simp
    moreover have "t0 + of_nat T + of_nat k * of_nat T - slice_start_ms p = (of_nat (Suc k * T) :: u32)"
      by (simp add: ss algebra_simps)
    ultimately show "\<not> TIME_SLICE \<le> t0 + of_nat T + of_nat k * of_nat T - slice_start_ms p"
      by (simp add: TIME_SLICE_def)
  qed
  show ?thesis
    using rr_keeps_running [OF cpu len a b] by (simp add: el)
qed

lemma rr_grant_expires:
  fixes T :: nat
  assumes cpu: "cpu_task s = Some p" and ss: "slice_start_ms p = t0"
    and el: "ellapsed_time_ms p = of_nat e" and len: "length bs = Suc n"
    and slice: "n * T < 500" "500 \<le> Suc n * T" "Suc n * T < 2 ^ 32"
    and dur: "e + Suc n * T < d" and d: "time_ms p = of_nat d" "d < 2 ^ 32"
    and rq: "ready_queue s @ admitted (concat bs) = q # qs"
  shows "main_loop SCHED_RR (of_nat T) (t0 + of_nat T) bs s =
     (t0 + of_nat T + of_nat (Suc n * T),
      s\<lparr>ready_queue := qs @ [p\<lparr>ellapsed_time_ms := of_nat (e + Suc n * T)\<rparr>],
        cpu_task := Some (q\<lparr>slice_start_ms := t0 + of_nat (Suc n * T)\<rparr>)\<rparr>)"
proof -
  from len obtain bs' b where bs: "bs = bs' @ [b]" and len': "length bs' = n"
    by (cases bs rule: rev_cases) auto
  let ?p1 = "p\<lparr>ellapsed_time_ms := of_nat (e + n * T)\<rparr>"
  let ?s1 = "s\<lparr>ready_queue := ready_queue s @ admitted (concat bs'), cpu_task := Some ?p1\<rparr>"
  from dur have dur': "e + n * T < d" by simp
  have run: "main_loop SCHED_RR (of_nat T) (t0 + of_nat T) bs' s =
      (t0 + of_nat T + of_nat (n * T), ?s1)"
    by (rule rr_grant_runs [OF cpu ss el len' slice(1) dur' d])
  have nd: "\<not> (of_nat d :: u32) \<le> of_nat (e + Suc n * T)"
    using dur d(2) by (rule u32_not_le_of_nat)
  have ex: "(of_nat 500 :: u32) \<le> of_nat (Suc n * T)"
    using slice(2,3) by (rule u32_le_of_nat)
  have rq': "ready_queue s @ admitted (concat bs') @ admitted b = q # qs"
    using rq by (simp add: bs admitted_append)
  have tick: "main_tick SCHED_RR (of_nat T) (t0 + of_nat T + of_nat (n * T)) b ?s1 =
      s\<lparr>ready_queue := qs @ [p\<lparr>ellapsed_time_ms := of_nat (e + Suc n * T)\<rparr>],
        cpu_task := Some (q\<lparr>slice_start_ms := t0 + of_nat (Suc n * T)\<rparr>)\<rparr>"
    using nd ex rq'
    by (simp add: main_tick_def check_new_commands_ready run_scheduler_def rr_scheduler_def
        rr_update_def rr_dispatch_def Let_def d(1) ss TIME_SLICE_def enqueue_pcb_def
        dequeue_pcb_def algebra_simps)
  have "main_loop SCHED_RR (of_nat T) (t0 + of_nat T) bs s =
      main_loop SCHED_RR (of_nat T) (t0 + of_nat T + of_nat (n * T)) [b] ?s1"
    unfolding bs main_loop_append run by (simp only: fst_conv snd_conv)
  also have "\<dots> = (t0 + of_nat T + of_nat (n * T) + of_nat T,
      main_tick SCHED_RR (of_nat T) (t0 + of_nat T + of_nat (n * T)) b ?s1)"
    by (simp only: main_loop.simps)
  finally show ?thesis
    unfolding tick by (simp add: algebra_simps)
qed

lemma rr_grant_completes:
  fixes T :: nat
  assumes cpu: "cpu_task s = Some p" and ss: "slice_start_ms p = t0"
    and el: "ellapsed_time_ms p = of_nat e" and len: "length bs = Suc n"
    and slice: "n * T < 500"
    and dur: "e + n * T < d" "d \<le> e + Suc n * T" "e + Suc n * T < 2 ^ 32"
    and d: "time_ms p = of_nat d"
  shows "main_loop SCHED_RR (of_nat T) (t0 + of_nat T) bs s =
     (t0 + of_nat T + of_nat (Suc n * T),
      rr_dispatch (t0 + of_nat (Suc n * T))
       (s\<lparr>ready_queue := ready_queue s @ admitted (concat bs),
          sent := sent s @ [done_msg (p\<lparr>ellapsed_time_ms := of_nat (e + Suc n * T)\<rparr>)
                             (t0 + of_nat (Suc n * T))],
          freed := freed s @ [p\<lparr>ellapsed_time_ms := of_nat (e + Suc n * T)\<rparr>],
          cpu_task := None\<rparr>))"
proof -
  from len obtain bs' b where bs: "bs = bs' @ [b]" and len': "length bs' = n"
    by (cases bs rule: rev_cases) auto
  let ?p1 = "p\<lparr>ellapsed_time_ms := of_nat (e + n * T)\<rparr>"
  let ?s1 = "s\<lparr>ready_queue := ready_queue s @ admitted (concat bs'), cpu_task := Some ?p1\<rparr>"
  from dur have d32: "d < 2 ^ 32" by simp
  have run: "main_loop SCHED_RR (of_nat T) (t0 + of_nat T) bs' s =
      (t0 + of_nat T + of_nat (n * T), ?s1)"
    by (rule rr_grant_runs [OF cpu ss el len' slice(1) dur(1) d d32])
  have fin: "(of_nat d :: u32) \<le> of_nat (e + Suc n * T)"
    using dur(2,3) by (rule u32_le_of_nat)
  have tick: "main_tick SCHED_RR (of_nat T) (t0 + of_nat T + of_nat (n * T)) b ?s1 =
      rr_dispatch (t0 + of_nat (Suc n * T))
       (s\<lparr>ready_queue := ready_queue s @ admitted (concat bs),
          sent := sent s @ [done_msg (p\<lparr>ellapsed_time_ms := of_nat (e + Suc n * T)\<rparr>)
                             (t0 + of_nat (Suc n * T))],
          freed := freed s @ [p\<lparr>ellapsed_time_ms := of_nat (e + Suc n * T)\<rparr>],
          cpu_task := None\<rparr>)"
    using fin
    by (simp add: main_tick_def check_new_commands_ready run_scheduler_def rr_scheduler_def
        rr_update_def Let_def d bs admitted_append algebra_simps)
  have "main_loop SCHED_RR (of_nat T) (t0 + of_nat T) bs s =
      main_loop SCHED_RR (of_nat T) (t0 + of_nat T + of_nat (n * T)) [b] ?s1"
    unfolding bs main_loop_append run by (simp only: fst_conv snd_conv)
  also have "\<dots> = (t0 + of_nat T + of_nat (n * T) + of_nat T,
      main_tick SCHED_RR (of_nat T) (t0 + of_nat T + of_nat (n * T)) b ?s1)"
    by (simp only: main_loop.simps)
  finally show ?thesis
    unfolding tick by (simp add: algebra_simps)
qed


lemma rr_tick_queue:
  "(\<exists>ys. ready_queue (main_tick SCHED_RR TICKS_MS t evs s) =
          (ready_queue s @ admitted evs) @ ys)
   \<or> (\<exists>ys. ready_queue s @ admitted evs \<noteq> []
        \<and> ready_queue (main_tick SCHED_RR TICKS_MS t evs s) =
          tl (ready_queue s @ admitted evs) @ ys
        \<and> cpu_task (main_tick SCHED_RR TICKS_MS t evs s) =
          Some ((hd (ready_queue s @ admitted evs))\<lparr>slice_start_ms := t\<rparr>))"
  by (cases "ready_queue s @ admitted evs")
    (auto simp add: main_tick_def check_new_commands_ready run_scheduler_def rr_scheduler_def
      rr_update_def rr_dispatch_def Let_def enqueue_pcb_def dequeue_pcb_def
      split: option.splits)

lemma rr_1300_grants:
  fixes T :: nat
  assumes tick: "T dvd 100"
    and cpu: "cpu_task s = Some p" and dur: "time_ms p = 1300" and ss: "slice_start_ms p = t0"
  shows
   "(\<forall>e bs q qs. (e = 0 \<or> e = 500) \<and> ellapsed_time_ms p = of_nat e
        \<and> length bs = 500 div T \<and> ready_queue s @ admitted (concat bs) = q # qs \<longrightarrow>
      (\<forall>k<500 div T. main_loop SCHED_RR (of_nat T) (t0 + of_nat T) (take k bs) s =
         (t0 + of_nat T + of_nat (k * T),
          s\<lparr>ready_queue := ready_queue s @ admitted (concat (take k bs)),
            cpu_task := Some (p\<lparr>ellapsed_time_ms := of_nat (e + k * T)\<rparr>)\<rparr>))
      \<and> main_loop SCHED_RR (of_nat T) (t0 + of_nat T) bs s =
         (t0 + of_nat T + 500,
          s\<lparr>ready_queue := qs @ [p\<lparr>ellapsed_time_ms := of_nat (e + 500)\<rparr>],
            cpu_task := Some (q\<lparr>slice_start_ms := t0 + 500\<rparr>)\<rparr>))
    \<and> (\<forall>bs. ellapsed_time_ms p = 1000 \<and> length bs = 300 div T \<longrightarrow>
      (\<forall>k<300 div T. main_loop SCHED_RR (of_nat T) (t0 + of_nat T) (take k bs) s =
         (t0 + of_nat T + of_nat (k * T),
          s\<lparr>ready_queue := ready_queue s @ admitted (concat (take k bs)),
            cpu_task := Some (p\<lparr>ellapsed_time_ms := of_nat (1000 + k * T)\<rparr>)\<rparr>))
      \<and> main_loop SCHED_RR (of_nat T) (t0 + of_nat T) bs s =
         (t0 + of_nat T + 300,
          rr_dispatch (t0 + 300)
           (s\<lparr>ready_queue := ready_queue s @ admitted (concat bs),
              sent := sent s @ [done_msg (p\<lparr>ellapsed_time_ms := 1300\<rparr>) (t0 + 300)],
              freed := freed s @ [p\<lparr>ellapsed_time_ms := 1300\<rparr>],
              cpu_task := None\<rparr>)))
    \<and> (\<forall>s' t evs.
         (\<exists>ys. ready_queue (main_tick SCHED_RR (of_nat T) t evs s') =
              (ready_queue s' @ admitted evs) @ ys)
         \<or> (\<exists>ys. ready_queue s' @ admitted evs \<noteq> []
              \<and> ready_queue (main_tick SCHED_RR (of_nat T) t evs s') =
                  tl (ready_queue s' @ admitted evs) @ ys
              \<and> cpu_task (main_tick SCHED_RR (of_nat T) t evs s') =
                  Some ((hd (ready_queue s' @ admitted evs))\<lparr>slice_start_ms := t\<rparr>)))"
proof -
  from tick have T0: "0 < T" by (cases "T = 0") auto
  from tick have "T dvd 5 * 100" by (rule dvd_mult)
  then have n5: "500 div T * T = 500" by simp
  from tick have "T dvd 3 * 100" by (rule dvd_mult)
  then have n3: "300 div T * T = 300" by simp
  have d: "time_ms p = of_nat 1300" using dur by simp
  have less5: "k * T < 500" if "k < 500 div T" for k
  proof -
    from that T0 have "k * T < 500 div T * T" by simp
    with n5 show ?thesis by simp
  qed
  have less3: "k * T < 300" if "k < 300 div T" for k
  proof -
    from that T0 have "k * T < 300 div T * T" by simp
    with n3 show ?thesis by simp
  qed
  have A: "\<forall>e bs q qs. (e = 0 \<or> e = 500) \<and> ellapsed_time_ms p = of_nat e
        \<and> length bs = 500 div T \<and> ready_queue s @ admitted (concat bs) = q # qs \<longrightarrow>
      (\<forall>k<500 div T. main_loop SCHED_RR (of_nat T) (t0 + of_nat T) (take k bs) s =
         (t0 + of_nat T + of_nat (k * T),
          s\<lparr>ready_queue := ready_queue s @ admitted (concat (take k bs)),
            cpu_task := Some (p\<lparr>ellapsed_time_ms := of_nat (e + k * T)\<rparr>)\<rparr>))
      \<and> main_loop SCHED_RR (of_nat T) (t0 + of_nat T) bs s =
         (t0 + of_nat T + 500,
          s\<lparr>ready_queue := qs @ [p\<lparr>ellapsed_time_ms := of_nat (e + 500)\<rparr>],
            cpu_task := Some (q\<lparr>slice_start_ms := t0 + 500\<rparr>)\<rparr>)"
  proof (intro conjI allI impI)
    fix e :: nat and bs :: "msg_event list list" and q :: pcb_t and qs :: "pcb_t list" and k :: nat
    assume h: "(e = 0 \<or> e = 500) \<and> ellapsed_time_ms p = of_nat e
        \<and> length bs = 500 div T \<and> ready_queue s @ admitted (concat bs) = q # qs"
    assume k: "k < 500 div T"
    from h have el: "ellapsed_time_ms p = of_nat e" and e: "e \<le> 500" by auto
    from k h have len: "length (take k bs) = k" by simp
    from less5 [OF k] e have b: "e + k * T < 1300" by simp
    show "main_loop SCHED_RR (of_nat T) (t0 + of_nat T) (take k bs) s =
         (t0 + of_nat T + of_nat (k * T),
          s\<lparr>ready_queue := ready_queue s @ admitted (concat (take k bs)),
            cpu_task := Some (p\<lparr>ellapsed_time_ms := of_nat (e + k * T)\<rparr>)\<rparr>)"
      by (rule rr_grant_runs [OF cpu ss el len less5 [OF k] b d]) simp
  next
    fix e :: nat and bs :: "msg_event list list" and q :: pcb_t and qs :: "pcb_t list"
    assume h: "(e = 0 \<or> e = 500) \<and> ellapsed_time_ms p = of_nat e
        \<and> length bs = 500 div T \<and> ready_queue s @ admitted (concat bs) = q # qs"
    from h have el: "ellapsed_time_ms p = of_nat e" and e: "e \<le> 500"
      and rq: "ready_queue s @ admitted (concat bs) = q # qs" by auto
    from n5 obtain n where n: "500 div T = Suc n" by (cases "500 div T") auto
    from h n have len: "length bs = Suc n" by simp
    from n n5 have full: "Suc n * T = 500" by simp
    have a: "n * T < 500" by (rule less5) (simp add: n)
    have b: "500 \<le> Suc n * T" "Suc n * T < 2 ^ 32" using full by simp_all
    have c: "e + Suc n * T < 1300" using full e by simp
    show "main_loop SCHED_RR (of_nat T) (t0 + of_nat T) bs s =
         (t0 + of_nat T + 500,
          s\<lparr>ready_queue := qs @ [p\<lparr>ellapsed_time_ms := of_nat (e + 500)\<rparr>],
            cpu_task := Some (q\<lparr>slice_start_ms := t0 + 500\<rparr>)\<rparr>)"
      using rr_grant_expires [OF cpu ss el len a b c d _ rq] unfolding full by simp
  qed
  have B: "\<forall>bs. ellapsed_time_ms p = 1000 \<and> length bs = 300 div T \<longrightarrow>
      (\<forall>k<300 div T. main_loop SCHED_RR (of_nat T) (t0 + of_nat T) (take k bs) s =
         (t0 + of_nat T + of_nat (k * T),
          s\<lparr>ready_queue := ready_queue s @ admitted (concat (take k bs)),
            cpu_task := Some (p\<lparr>ellapsed_time_ms := of_nat (1000 + k * T)\<rparr>)\<rparr>))
      \<and> main_loop SCHED_RR (of_nat T) (t0 + of_nat T) bs s =
         (t0 + of_nat T + 300,
          rr_dispatch (t0 + 300)
           (s\<lparr>ready_queue := ready_queue s @ admitted (concat bs),
              sent := sent s @ [done_msg (p\<lparr>ellapsed_time_ms := 1300\<rparr>) (t0 + 300)],
              freed := freed s @ [p\<lparr>ellapsed_time_ms := 1300\<rparr>],
              cpu_task := None\<rparr>))"
  proof (intro conjI allI impI)
    fix bs :: "msg_event list list" and k :: nat
    assume h: "ellapsed_time_ms p = 1000 \<and> length bs = 300 div T"
    assume k: "k < 300 div T"
    from h have el: "ellapsed_time_ms p = of_nat 1000" by simp
    from k h have len: "length (take k bs) = k" by simp
    from less3 [OF k] have a: "k * T < 500" and b: "1000 + k * T < 1300" by simp_all
    show "main_loop SCHED_RR (of_nat T) (t0 + of_nat T) (take k bs) s =
         (t0 + of_nat T + of_nat (k * T),
          s\<lparr>ready_queue := ready_queue s @ admitted (concat (take k bs)),
            cpu_task := Some (p\<lparr>ellapsed_time_ms := of_nat (1000 + k * T)\<rparr>)\<rparr>)"
      by (rule rr_grant_runs [OF cpu ss el len a b d]) simp
  next
    fix bs :: "msg_event list list"
    assume h: "ellapsed_time_ms p = 1000 \<and> length bs = 300 div T"
    from h have el: "ellapsed_time_ms p = of_nat 1000" by simp
    from n3 obtain n where n: "300 div T = Suc n" by (cases "300 div T") auto
    from h n have len: "length bs = Suc n" by simp
    from n n3 have full: "Suc n * T = 300" by simp
    have "n * T < 300" by (rule less3) (simp add: n)
    then have a: "n * T < 500" and b: "1000 + n * T < 1300" by simp_all
    have c: "1300 \<le> 1000 + Suc n * T" "1000 + Suc n * T < 2 ^ 32" using full by simp_all
    show "main_loop SCHED_RR (of_nat T) (t0 + of_nat T) bs s =
         (t0 + of_nat T + 300,
          rr_dispatch (t0 + 300)
           (s\<lparr>ready_queue := ready_queue s @ admitted (concat bs),
              sent := sent s @ [done_msg (p\<lparr>ellapsed_time_ms := 1300\<rparr>) (t0 + 300)],
              freed := freed s @ [p\<lparr>ellapsed_time_ms := 1300\<rparr>],
              cpu_task := None\<rparr>))"
      using rr_grant_completes [OF cpu ss el len a b c d] unfolding full by simp
  qed
  have C: "\<forall>s' t evs.
         (\<exists>ys. ready_queue (main_tick SCHED_RR (of_nat T) t evs s') =
              (ready_queue s' @ admitted evs) @ ys)
         \<or> (\<exists>ys. ready_queue s' @ admitted evs \<noteq> []
              \<and> ready_queue (main_tick SCHED_RR (of_nat T) t evs s') =
                  tl (ready_queue s' @ admitted evs) @ ys
              \<and> cpu_task (main_tick SCHED_RR (of_nat T) t evs s') =
                  Some ((hd (ready_queue s' @ admitted evs))\<lparr>slice_start_ms := t\<rparr>))"
    by (intro allI) (rule rr_tick_queue)
  show ?thesis by (rule conjI [OF A conjI [OF B C]])
qed

subsection \<open>One process of 1300 ms over a run\<close>

lemma rr_tick_facts:
  fixes T e :: nat
  assumes "T dvd 100" "T dvd e" "e < 1300"
  shows "e + T \<le> 1300" "e mod 500 + T \<le> 500" "0 < T" "T \<le> 100"
proof -
  from assms(1) show "0 < T" by (cases "T = 0") simp_all
  from assms(1) show "T \<le> 100" by (rule dvd_imp_le) simp
  have "(100::nat) dvd 1300" "(100::nat) dvd 500" by simp_all
  with assms(1) have d13: "T dvd 1300" and d5: "T dvd 500"
    by (blast intro: dvd_trans)+
  from d13 assms(2) have "T dvd 1300 - e" by (rule dvd_diff_nat)
  then have "T \<le> 1300 - e" by (rule dvd_imp_le) (use assms(3) in simp)
  with assms(3) show "e + T \<le> 1300" by simp
  from assms(2) d5 have "T dvd e mod 500" by (simp add: dvd_mod)
  with d5 have "T dvd 500 - e mod 500" by (rule dvd_diff_nat)
  moreover have "e mod 500 < 500" by simp
  ultimately have "T \<le> 500 - e mod 500" by (intro dvd_imp_le) simp_all
  then show "e mod 500 + T \<le> 500" by simp
qed


lemma mod_500:
  fixes e :: nat
  shows "e < 500 \<Longrightarrow> e mod 500 = e"
    and "500 \<le> e \<Longrightarrow> e < 1000 \<Longrightarrow> e mod 500 = e - 500"
    and "1000 \<le> e \<Longrightarrow> e < 1500 \<Longrightarrow> e mod 500 = e - 1000"
proof -
  show "e < 500 \<Longrightarrow> e mod 500 = e" by simp
  show "500 \<le> e \<Longrightarrow> e < 1000 \<Longrightarrow> e mod 500 = e - 500"
    by (simp add: le_mod_geq)
  show "e mod 500 = e - 1000" if "1000 \<le> e" "e < 1500"
  proof -
    from that have "e mod 500 = (e - 500) mod 500" by (simp add: le_mod_geq)
    also from that have "\<dots> = (e - 500 - 500) mod 500" by (simp add: le_mod_geq)
    also from that have "\<dots> = e - 1000" by simp
    finally show ?thesis .
  qed
qed

lemma rr_expected_step:
  fixes T e :: nat
  assumes le: "e + T \<le> 1300" and sl: "e mod 500 + T \<le> 500" and T: "0 < T"
  shows "rr_expected (e + T) =
    rr_expected e @ (if e + T = 1300 then [Completed 1300]
                     else if (e + T) mod 500 = 0 then [Preempted (of_nat (e + T))] else [])"
proof -
  consider "e < 500" | "500 \<le> e" "e < 1000" | "1000 \<le> e" by linarith
  then show ?thesis
  proof cases
    case 1
    with sl have b: "e + T \<le> 500" by (simp add: mod_500)
    show ?thesis
    proof (cases "e + T = 500")
      case True
      with 1 show ?thesis by (simp add: rr_expected_def)
    next
      case False
      with b have "e + T < 500" by simp
      with 1 T show ?thesis by (simp add: rr_expected_def mod_500)
    qed
  next
    case 2
    with sl have b: "e + T \<le> 1000" by (simp add: mod_500)
    show ?thesis
    proof (cases "e + T = 1000")
      case True
      with 2 show ?thesis by (simp add: rr_expected_def)
    next
      case False
      with b have lt: "e + T < 1000" by simp
      from 2 T have "500 \<le> e + T" by simp
      then have "(e + T) mod 500 = e + T - 500" using lt by (rule mod_500(2))
      with 2 lt T show ?thesis by (simp add: rr_expected_def)
    qed
  next
    case 3
    from le T have e: "e < 1300" by simp
    show ?thesis
    proof (cases "e + T = 1300")
      case True
      with 3 e show ?thesis by (simp add: rr_expected_def)
    next
      case False
      with le have lt: "e + T < 1300" by simp
      from 3 T have "1000 \<le> e + T" by simp
      moreover from lt have "e + T < 1500" by simp
      ultimately have "(e + T) mod 500 = e + T - 1000" by (rule mod_500(3))
      with 3 lt e T show ?thesis by (simp add: rr_expected_def)
    qed
  qed
qed

lemma mod_500_step:
  fixes T e :: nat
  assumes "e mod 500 + T \<le> 500"
  shows "(e + T) mod 500 = (if e mod 500 + T = 500 then 0 else e mod 500 + T)"
proof -
  have "(e + T) mod 500 = (e mod 500 + T) mod 500" by (simp add: mod_add_left_eq)
  also have "\<dots> = (if e mod 500 + T = 500 then 0 else e mod 500 + T)"
    using assms by (cases "e mod 500 + T = 500") simp_all
  finally show ?thesis .
qed


lemma rr_tick_idle:
  assumes "cpu_task s = None"
  shows "ready_queue s @ admitted evs = [] \<Longrightarrow>
      main_tick SCHED_RR TICKS_MS t evs s = s\<lparr>ready_queue := []\<rparr>"
    and "ready_queue s @ admitted evs = h # rest \<Longrightarrow>
      main_tick SCHED_RR TICKS_MS t evs s =
        s\<lparr>ready_queue := rest, cpu_task := Some (h\<lparr>slice_start_ms := t\<rparr>)\<rparr>"
  using assms
  by (simp_all add: main_tick_def check_new_commands_ready run_scheduler_def rr_scheduler_def
      rr_update_def rr_dispatch_def dequeue_pcb_def)

lemma rr_tick_done:
  assumes "cpu_task s = Some c" and "time_ms c \<le> ellapsed_time_ms c + TICKS_MS"
  shows "ready_queue s @ admitted evs = [] \<Longrightarrow>
      main_tick SCHED_RR TICKS_MS t evs s =
        s\<lparr>ready_queue := [],
          sent := sent s @
            [done_msg (c\<lparr>ellapsed_time_ms := ellapsed_time_ms c + TICKS_MS\<rparr>) t],
          freed := freed s @ [c\<lparr>ellapsed_time_ms := ellapsed_time_ms c + TICKS_MS\<rparr>],
          cpu_task := None\<rparr>"
    and "ready_queue s @ admitted evs = h # rest \<Longrightarrow>
      main_tick SCHED_RR TICKS_MS t evs s =
        s\<lparr>ready_queue := rest,
          sent := sent s @
            [done_msg (c\<lparr>ellapsed_time_ms := ellapsed_time_ms c + TICKS_MS\<rparr>) t],
          freed := freed s @ [c\<lparr>ellapsed_time_ms := ellapsed_time_ms c + TICKS_MS\<rparr>],
          cpu_task := Some (h\<lparr>slice_start_ms := t\<rparr>)\<rparr>"
  using assms
  by (simp_all add: main_tick_def check_new_commands_ready run_scheduler_def rr_scheduler_def
      rr_update_def rr_dispatch_def dequeue_pcb_def Let_def)

lemma rr_tick_expired:
  assumes "cpu_task s = Some c" and "\<not> time_ms c \<le> ellapsed_time_ms c + TICKS_MS"
    and "TIME_SLICE \<le> t - slice_start_ms c"
  shows "ready_queue s @ admitted evs = [] \<Longrightarrow>
      main_tick SCHED_RR TICKS_MS t evs s =
        s\<lparr>ready_queue := [],
          cpu_task := Some (c\<lparr>ellapsed_time_ms := ellapsed_time_ms c + TICKS_MS,
                              slice_start_ms := t\<rparr>)\<rparr>"
    and "ready_queue s @ admitted evs = h # rest \<Longrightarrow>
      main_tick SCHED_RR TICKS_MS t evs s =
        s\<lparr>ready_queue := rest @ [c\<lparr>ellapsed_time_ms := ellapsed_time_ms c + TICKS_MS\<rparr>],
          cpu_task := Some (h\<lparr>slice_start_ms := t\<rparr>)\<rparr>"
  using assms
  by (simp_all add: main_tick_def check_new_commands_ready run_scheduler_def rr_scheduler_def
      rr_update_def rr_dispatch_def dequeue_pcb_def enqueue_pcb_def Let_def)

lemma rr_tick_continue:
  assumes "cpu_task s = Some c" and "\<not> time_ms c \<le> ellapsed_time_ms c + TICKS_MS"
    and "\<not> TIME_SLICE \<le> t - slice_start_ms c"
  shows "main_tick SCHED_RR TICKS_MS t evs s =
        s\<lparr>ready_queue := ready_queue s @ admitted evs,
          cpu_task := Some (c\<lparr>ellapsed_time_ms := ellapsed_time_ms c + TICKS_MS\<rparr>)\<rparr>"
  using assms
  by (simp add: main_tick_def check_new_commands_ready run_scheduler_def rr_scheduler_def
      rr_update_def rr_dispatch_def Let_def)


lemma rr_waiting_head:
  assumes m: "map (\<lambda>q. (time_ms q, ellapsed_time_ms q)) (filter (\<lambda>q. pid q = x) (h # rest)) =
      (if e < 1300 then [(1300, of_nat e)] else [])"
  shows "pid h = x \<and> filter (\<lambda>q. pid q = x) rest = [] \<and> e < 1300 \<and> time_ms h = 1300
      \<and> ellapsed_time_ms h = of_nat e
    \<or> pid h \<noteq> x \<and> filter (\<lambda>q. pid q = x) (h # rest) = filter (\<lambda>q. pid q = x) rest"
  using m by (cases "pid h = x"; cases "e < 1300") simp_all

lemma rr_waiting_tick:
  fixes T :: nat
  assumes w: "rr_waiting x s e" and adm: "filter (\<lambda>q. pid q = x) (admitted evs) = []"
  shows "rr_tick_events x (of_nat T) t evs s = []
    \<and> (rr_waiting x (main_tick SCHED_RR (of_nat T) t evs s) e
       \<or> rr_running x T (t + of_nat T) (main_tick SCHED_RR (of_nat T) t evs s) e)"
proof -
  let ?F = "filter (\<lambda>q. pid q = x)"
  let ?f = "\<lambda>q. (time_ms q, ellapsed_time_ms q)"
  let ?rq = "ready_queue s @ admitted evs"
  from w have off: "\<not> on_cpu x s"
    and md: "e mod 500 = 0 \<or> e = 1300"
    and m0: "map ?f (?F (ready_queue s)) = (if e < 1300 then [(1300, of_nat e)] else [])"
    by (simp_all add: rr_waiting_def)
  from m0 adm have m: "map ?f (?F ?rq) = (if e < 1300 then [(1300, of_nat e)] else [])"
    by simp
  have hd: "pid h = x \<and> ?F rest = [] \<and> e < 1300 \<and> time_ms h = 1300
      \<and> ellapsed_time_ms h = of_nat e \<and> e mod 500 = 0
    \<or> pid h \<noteq> x \<and> map ?f (?F rest) = (if e < 1300 then [(1300, of_nat e)] else [])"
    if "?rq = h # rest" for h rest
    using rr_waiting_head [of x h rest e] m md unfolding that by auto
  show ?thesis
  proof (cases "cpu_task s")
    case None
    show ?thesis
    proof (cases ?rq)
      case Nil
      show ?thesis
        using m md None Nil
        unfolding rr_tick_events_def rr_tick_idle(1) [OF None Nil] Let_def
        by (simp add: on_cpu_def rr_waiting_def)
    next
      case (Cons h rest)
      show ?thesis
        using hd [OF Cons] md None
        unfolding rr_tick_events_def rr_tick_idle(2) [OF None Cons] Let_def
        by (auto simp add: on_cpu_def rr_waiting_def rr_running_def)
    qed
  next
    case (Some c)
    with off have pc: "pid c \<noteq> x" by (simp add: on_cpu_def)
    show ?thesis
    proof (cases "time_ms c \<le> ellapsed_time_ms c + of_nat T")
      case True
      show ?thesis
      proof (cases ?rq)
        case Nil
        show ?thesis
          using m md Some pc Nil
          unfolding rr_tick_events_def rr_tick_done(1) [OF Some True Nil] Let_def
          by (simp add: on_cpu_def rr_waiting_def)
      next
        case (Cons h rest)
        show ?thesis
          using hd [OF Cons] md Some pc
          unfolding rr_tick_events_def rr_tick_done(2) [OF Some True Cons] Let_def
          by (auto simp add: on_cpu_def rr_waiting_def rr_running_def)
      qed
    next
      case run: False
      show ?thesis
      proof (cases "TIME_SLICE \<le> t - slice_start_ms c")
        case True
        show ?thesis
        proof (cases ?rq)
          case Nil
          show ?thesis
            using m md Some pc Nil
            unfolding rr_tick_events_def rr_tick_expired(1) [OF Some run True Nil] Let_def
            by (simp add: on_cpu_def rr_waiting_def)
        next
          case (Cons h rest)
          show ?thesis
            using hd [OF Cons] md Some pc
            unfolding rr_tick_events_def rr_tick_expired(2) [OF Some run True Cons] Let_def
            by (auto simp add: on_cpu_def rr_waiting_def rr_running_def)
        qed
      next
        case False
        show ?thesis
          using m md Some pc
          unfolding rr_tick_events_def rr_tick_continue [OF Some run False] Let_def
          by (simp add: on_cpu_def rr_waiting_def)
      qed
    qed
  qed
qed


lemma rr_running_tick:
  fixes T :: nat
  assumes r: "rr_running x T t s e" and tick: "T dvd 100" and dv: "T dvd e"
    and adm: "filter (\<lambda>q. pid q = x) (admitted evs) = []"
    and other: "ready_queue s @ admitted evs \<noteq> []"
  shows "rr_tick_events x (of_nat T) t evs s =
      (if e + T = 1300 then [Completed 1300]
       else if (e + T) mod 500 = 0 then [Preempted (of_nat (e + T))] else [])
    \<and> (rr_waiting x (main_tick SCHED_RR (of_nat T) t evs s) (e + T)
       \<or> rr_running x T (t + of_nat T) (main_tick SCHED_RR (of_nat T) t evs s) (e + T))"
proof -
  let ?F = "filter (\<lambda>q. pid q = x)"
  let ?rq = "ready_queue s @ admitted evs"
  from r obtain c where cpu: "cpu_task s = Some c" and pc: "pid c = x"
    and dur: "time_ms c = 1300" and el: "ellapsed_time_ms c = of_nat e"
    and sl: "t - slice_start_ms c = of_nat (e mod 500 + T)"
    and e: "e < 1300" and f0: "?F (ready_queue s) = []"
    by (cases "cpu_task s") (simp_all add: rr_running_def)
  note tf = rr_tick_facts [OF tick dv e]
  from f0 adm have f: "?F ?rq = []" by simp
  from other obtain h rest where rq: "?rq = h # rest" by (cases ?rq) simp_all
  from f rq have ph: "pid h \<noteq> x" and fr: "?F rest = []"
    by (auto split: if_splits)
  have on: "on_cpu x s" using cpu pc by (simp add: on_cpu_def)
  have ms: "(e + T) mod 500 = (if e mod 500 + T = 500 then 0 else e mod 500 + T)"
    using tf(2) by (rule mod_500_step)
  show ?thesis
  proof (cases "e + T = 1300")
    case True
    then have "(of_nat e :: u32) + of_nat T = 1300"
      by (metis of_nat_add of_nat_numeral)
    then have d: "time_ms c \<le> ellapsed_time_ms c + of_nat T"
      and el': "ellapsed_time_ms c + of_nat T = 1300"
      by (simp_all add: dur el)
    show ?thesis
      using True ph fr on pc
      unfolding rr_tick_events_def rr_tick_done(2) [OF cpu d rq] Let_def el'
      by (simp add: on_cpu_def rr_waiting_def)
  next
    case False
    with tf(1) have lt: "e + T < 1300" by simp
    have "\<not> (of_nat 1300 :: u32) \<le> of_nat (e + T)"
      using lt by (rule u32_not_le_of_nat) simp
    then have nd: "\<not> time_ms c \<le> ellapsed_time_ms c + of_nat T"
      by (simp add: dur el)
    show ?thesis
    proof (cases "e mod 500 + T = 500")
      case True
      then have "(of_nat (e mod 500 + T) :: u32) = 500"
        by (metis of_nat_numeral)
      then have ex: "TIME_SLICE \<le> t - slice_start_ms c"
        by (simp add: sl TIME_SLICE_def)
      from True ms have z: "(e + T) mod 500 = 0" by simp
      show ?thesis
        using False lt z ph fr on pc dur el
        unfolding rr_tick_events_def rr_tick_expired(2) [OF cpu nd ex rq] Let_def
        by (simp add: on_cpu_def rr_waiting_def)
    next
      case ne: False
      with tf(2) have l5: "e mod 500 + T < 500" by simp
      have "\<not> (of_nat 500 :: u32) \<le> of_nat (e mod 500 + T)"
        using l5 by (rule u32_not_le_of_nat) simp
      then have nx: "\<not> TIME_SLICE \<le> t - slice_start_ms c"
        by (simp add: sl TIME_SLICE_def)
      from ne ms have z: "(e + T) mod 500 = e mod 500 + T" by simp
      have sl': "t + of_nat T - slice_start_ms c = of_nat ((e + T) mod 500 + T)"
      proof -
        have "t + of_nat T - slice_start_ms c = (t - slice_start_ms c) + of_nat T" by simp
        also have "\<dots> = of_nat (e mod 500 + T + T)" unfolding sl by simp
        finally show ?thesis unfolding z .
      qed
      from z tf(3) have nz: "(e + T) mod 500 \<noteq> 0" by simp
      show ?thesis
        using False lt nz f on pc dur el sl'
        unfolding rr_tick_events_def rr_tick_continue [OF cpu nd nx] Let_def
        by (simp add: on_cpu_def rr_running_def)
    qed
  qed
qed


lemma rr_phase_tick:
  fixes T :: nat
  assumes ph: "rr_phase x T t s e" and tick: "T dvd 100"
    and adm: "filter (\<lambda>q. pid q = x) (admitted evs) = []"
    and other: "\<not> on_cpu x s \<or> ready_queue s @ admitted evs \<noteq> []"
  shows "rr_phase x T (t + of_nat T) (main_tick SCHED_RR (of_nat T) t evs s)
           (e + (if on_cpu x s then 1 else 0) * T)
    \<and> rr_expected e @ rr_tick_events x (of_nat T) t evs s =
        rr_expected (e + (if on_cpu x s then 1 else 0) * T)"
proof -
  from ph have dv: "T dvd e" and le: "e \<le> 1300"
    and mode: "rr_waiting x s e \<or> rr_running x T t s e"
    by (simp_all add: rr_phase_def)
  from mode show ?thesis
  proof
    assume w: "rr_waiting x s e"
    then have off: "\<not> on_cpu x s" by (simp add: rr_waiting_def)
    from rr_waiting_tick [OF w adm, of T t] dv le off show ?thesis
      by (simp add: rr_phase_def)
  next
    assume r: "rr_running x T t s e"
    then have on: "on_cpu x s" and e: "e < 1300"
      by (cases "cpu_task s"; simp add: rr_running_def on_cpu_def)+
    from on other have ne: "ready_queue s @ admitted evs \<noteq> []" by simp
    note tf = rr_tick_facts [OF tick dv e]
    from dv have dv': "T dvd e + T" by simp
    from rr_running_tick [OF r tick dv adm ne] rr_expected_step [OF tf(1,2,3)]
      dv' tf(1) on
    show ?thesis by (simp add: rr_phase_def)
  qed
qed

lemma rr_phase_run:
  fixes T :: nat
  shows "rr_phase x T t s e \<Longrightarrow> T dvd 100 \<Longrightarrow>
    filter (\<lambda>q. pid q = x) (admitted (concat bs)) = [] \<Longrightarrow>
    rr_contended x (of_nat T) t bs s \<Longrightarrow>
    rr_phase x T (fst (main_loop SCHED_RR (of_nat T) t bs s))
      (snd (main_loop SCHED_RR (of_nat T) t bs s))
      (e + rr_cpu_ticks x (of_nat T) t bs s * T)
    \<and> rr_expected e @ rr_trace x (of_nat T) t bs s =
        rr_expected (e + rr_cpu_ticks x (of_nat T) t bs s * T)"
proof (induction bs arbitrary: s t e)
  case Nil
  then show ?case by simp
next
  case (Cons evs rest)
  let ?s' = "main_tick SCHED_RR (of_nat T) t evs s"
  let ?d = "(if on_cpu x s then 1 else 0) * T"
  from Cons.prems(3) have adm: "filter (\<lambda>q. pid q = x) (admitted evs) = []"
    and adm': "filter (\<lambda>q. pid q = x) (admitted (concat rest)) = []"
    by (simp_all add: admitted_append)
  from Cons.prems(4) have other: "\<not> on_cpu x s \<or> ready_queue s @ admitted evs \<noteq> []"
    and cont': "rr_contended x (of_nat T) (t + of_nat T) rest ?s'"
    by simp_all
  note step = rr_phase_tick [OF Cons.prems(1,2) adm other]
  note ih = Cons.IH [OF step [THEN conjunct1] Cons.prems(2) adm' cont']
  have n: "e + rr_cpu_ticks x (of_nat T) t (evs # rest) s * T =
      e + ?d + rr_cpu_ticks x (of_nat T) (t + of_nat T) rest ?s' * T"
    by (simp add: algebra_simps)
  have "rr_expected e @ rr_trace x (of_nat T) t (evs # rest) s =
      (rr_expected e @ rr_tick_events x (of_nat T) t evs s)
        @ rr_trace x (of_nat T) (t + of_nat T) rest ?s'"
    by simp
  also have "\<dots> = rr_expected (e + ?d) @ rr_trace x (of_nat T) (t + of_nat T) rest ?s'"
    unfolding step [THEN conjunct2] ..
  also have "\<dots> = rr_expected (e + ?d + rr_cpu_ticks x (of_nat T) (t + of_nat T) rest ?s' * T)"
    by (rule ih [THEN conjunct2])
  finally have tr: "rr_expected e @ rr_trace x (of_nat T) t (evs # rest) s =
      rr_expected (e + rr_cpu_ticks x (of_nat T) t (evs # rest) s * T)"
    unfolding n .
  from ih [THEN conjunct1] have "rr_phase x T (fst (main_loop SCHED_RR (of_nat T) t (evs # rest) s))
      (snd (main_loop SCHED_RR (of_nat T) t (evs # rest) s))
      (e + rr_cpu_ticks x (of_nat T) t (evs # rest) s * T)"
    unfolding n by simp
  with tr show ?case by (rule conjI [rotated])
qed

lemma rr_tick_levels: "levels (main_tick SCHED_RR TICKS_MS t evs s) = levels s"
  by (simp add: main_tick_def check_new_commands_ready run_scheduler_def rr_scheduler_def
      rr_update_def rr_dispatch_def dequeue_pcb_def Let_def split: option.splits list.splits)

lemma rr_run_levels: "levels (snd (main_loop SCHED_RR TICKS_MS t bs s)) = levels s"
  by (induction bs arbitrary: s t) (simp_all add: rr_tick_levels)


lemma rr_1300_run:
  fixes T :: nat
  assumes tick: "T dvd 100"
    and one: "filter (\<lambda>q. pid q = x) (held s @ admitted (concat bs)) = [p]"
    and rq: "p \<in> set (ready_queue s)"
    and dur: "time_ms p = 1300" and el: "ellapsed_time_ms p = 0"
    and cont: "rr_contended x (of_nat T) t bs s"
  shows "rr_cpu_ticks x (of_nat T) t bs s * T \<le> 1300
    \<and> rr_trace x (of_nat T) t bs s = rr_expected (rr_cpu_ticks x (of_nat T) t bs s * T)
    \<and> map (\<lambda>q. (time_ms q, ellapsed_time_ms q))
        (pcbs_of x (snd (main_loop SCHED_RR (of_nat T) t bs s))) =
        (if rr_cpu_ticks x (of_nat T) t bs s * T < 1300
         then [(1300, of_nat (rr_cpu_ticks x (of_nat T) t bs s * T))] else [])"
proof -
  let ?F = "filter (\<lambda>q. pid q = x)"
  let ?n = "rr_cpu_ticks x (of_nat T) t bs s * T"
  let ?s' = "snd (main_loop SCHED_RR (of_nat T) t bs s)"
  let ?cpu = "\<lambda>s. case cpu_task s of None \<Rightarrow> [] | Some c \<Rightarrow> if pid c = x then [c] else []"
  from one have "p \<in> set (?F (held s @ admitted (concat bs)))" by simp
  then have px: "pid p = x" by auto
  have heq: "?F (held s @ admitted (concat bs)) =
      ?F (ready_queue s) @ (?F (levels s 0) @ ?F (levels s 1)
      @ ?F (levels s 2) @ ?cpu s @ ?F (admitted (concat bs)))"
    unfolding held_def queued_def upt_NUM_QUEUES by (cases "cpu_task s") simp_all
  have split: "?F (ready_queue s) @ (?F (levels s 0) @ ?F (levels s 1)
      @ ?F (levels s 2) @ ?cpu s @ ?F (admitted (concat bs))) = [p]"
    using one unfolding heq .
  from rq px have "p \<in> set (?F (ready_queue s))" by simp
  then obtain a as where fa: "?F (ready_queue s) = a # as"
    by (cases "?F (ready_queue s)") simp_all
  from split have fq: "?F (ready_queue s) = [p]"
    and l0: "?F (levels s 0) = []" and l1: "?F (levels s 1) = []"
    and l2: "?F (levels s 2) = []" and c0: "?cpu s = []"
    and adm: "?F (admitted (concat bs)) = []"
    unfolding fa by simp_all
  from c0 have off: "\<not> on_cpu x s"
    by (cases "cpu_task s") (simp_all add: on_cpu_def split: if_splits)
  have "rr_waiting x s 0" using off fq dur el by (simp add: rr_waiting_def)
  then have ph: "rr_phase x T t s 0" by (simp add: rr_phase_def)
  note run = rr_phase_run [OF ph tick adm cont]
  have e0: "rr_expected 0 = []" by (simp add: rr_expected_def)
  from run have tr: "rr_trace x (of_nat T) t bs s = rr_expected ?n"
    unfolding e0 by simp
  from run have le: "?n \<le> 1300"
    and mode: "rr_waiting x ?s' ?n \<or> rr_running x T (fst (main_loop SCHED_RR (of_nat T) t bs s)) ?s' ?n"
    by (simp_all add: rr_phase_def)
  have pe: "pcbs_of x ?s' = ?F (ready_queue ?s') @ ?cpu ?s'"
    unfolding pcbs_of_eq rr_run_levels l0 l1 l2 by simp
  from mode have fin: "map (\<lambda>q. (time_ms q, ellapsed_time_ms q)) (pcbs_of x ?s') =
      (if ?n < 1300 then [(1300, of_nat ?n)] else [])"
  proof
    assume "rr_waiting x ?s' ?n"
    then show ?thesis
      unfolding pe by (cases "cpu_task ?s'") (simp_all add: rr_waiting_def on_cpu_def)
  next
    assume "rr_running x T (fst (main_loop SCHED_RR (of_nat T) t bs s)) ?s' ?n"
    then show ?thesis
      unfolding pe by (cases "cpu_task ?s'") (simp_all add: rr_running_def)
  qed
  from le tr fin show ?thesis by (intro conjI)
qed

text \<open>
  C9 (as stated). Under RR with quantum 500, a PCB of 1300 ms that has another ready PCB
  beside it throughout is preempted twice, with 500 and with 1000 ms elapsed, and
  completes with 1300 ms elapsed. The statement fails for a tick of 400 ms (the value of
  \<open>TICKS_MS\<close> is not in the sources). Process 1, of 1300 ms, waits at the head of the ready
  queue, before process 2 of 5000 ms. It is dispatched at tick 0, is preempted once, at
  tick 800 with 800 ms elapsed, is dispatched again at tick 1600 and completes at tick
  2400 with 1600 ms elapsed; the ready queue is not empty at any tick charged to it. The
  run is the one of the initial state when the two requests arrive at tick 0.
\<close>

theorem rr_1300_tick_of_400:
  "filter (\<lambda>q. pid q = 1) (held (rr_sample_state 5000)
      @ admitted (concat (take 7 rr_sample_run))) = [job 1 1300 0 0 0]
   \<and> job 1 1300 0 0 0 \<in> set (ready_queue (rr_sample_state 5000))
   \<and> time_ms (job 1 1300 0 0 0) = 1300 \<and> ellapsed_time_ms (job 1 1300 0 0 0) = 0
   \<and> rr_contended 1 400 0 (take 7 rr_sample_run) (rr_sample_state 5000)
   \<and> rr_cpu_ticks 1 400 0 (take 7 rr_sample_run) (rr_sample_state 5000) = 4
   \<and> rr_trace 1 400 0 (take 7 rr_sample_run) (rr_sample_state 5000) =
       [Preempted 800, Completed 1600]
   \<and> main_loop SCHED_RR 400 0 (take 7 rr_sample_run) (rr_sample_state 5000) =
       (2800, init_state\<lparr>ready_queue := [], cpu_task := Some (job 2 5000 800 2400 0),
          sent := [done_msg (job 1 1300 1600 1600 0) 2400],
          freed := [job 1 1300 1600 1600 0]\<rparr>)
   \<and> check_new_commands SCHED_RR (rr_sample_requests 5000) init_state = rr_sample_state 5000
   \<and> rr_trace 1 400 0 (rr_sample_requests 5000 # take 6 rr_sample_run) init_state =
       [Preempted 800, Completed 1600]
   \<and> main_loop SCHED_RR 400 0 (rr_sample_requests 5000 # take 6 rr_sample_run) init_state =
       (2800, init_state\<lparr>ready_queue := [], cpu_task := Some (job 2 5000 800 2400 0),
          sent := [done_msg (job 1 1300 1600 1600 0) 2400],
          freed := [job 1 1300 1600 1600 0]\<rparr>)"
proof -
  have a: "filter (\<lambda>q. pid q = 1) (held (rr_sample_state 5000)
      @ admitted (concat (take 7 rr_sample_run))) = [job 1 1300 0 0 0]"
    "job 1 1300 0 0 0 \<in> set (ready_queue (rr_sample_state 5000))"
    "time_ms (job 1 1300 0 0 0) = 1300" "ellapsed_time_ms (job 1 1300 0 0 0) = 0"
    unfolding held_def queued_def upt_NUM_QUEUES
    by (simp_all add: rr_sample_run_def rr_sample_state_def init_state_def job_def
        admitted_def)
  have b: "rr_contended 1 400 0 (take 7 rr_sample_run) (rr_sample_state 5000)"
    "rr_cpu_ticks 1 400 0 (take 7 rr_sample_run) (rr_sample_state 5000) = 4"
    "rr_trace 1 400 0 (take 7 rr_sample_run) (rr_sample_state 5000) =
       [Preempted 800, Completed 1600]"
    "main_loop SCHED_RR 400 0 (take 7 rr_sample_run) (rr_sample_state 5000) =
       (2800, init_state\<lparr>ready_queue := [], cpu_task := Some (job 2 5000 800 2400 0),
          sent := [done_msg (job 1 1300 1600 1600 0) 2400],
          freed := [job 1 1300 1600 1600 0]\<rparr>)"
    "check_new_commands SCHED_RR (rr_sample_requests 5000) init_state = rr_sample_state 5000"
    "rr_trace 1 400 0 (rr_sample_requests 5000 # take 6 rr_sample_run) init_state =
       [Preempted 800, Completed 1600]"
    "main_loop SCHED_RR 400 0 (rr_sample_requests 5000 # take 6 rr_sample_run) init_state =
       (2800, init_state\<lparr>ready_queue := [], cpu_task := Some (job 2 5000 800 2400 0),
          sent := [done_msg (job 1 1300 1600 1600 0) 2400],
          freed := [job 1 1300 1600 1600 0]\<rparr>)"
    by (simp_all add: rr_sample_run_def rr_sample_state_def rr_sample_requests_def run_msg_def
      handle_msg_def run_request_def new_pcb_def init_state_def job_def admitted_def
      main_tick_def run_scheduler_def rr_scheduler_def rr_update_def
      rr_dispatch_def enqueue_pcb_def dequeue_pcb_def done_msg_def TIME_SLICE_def Let_def
      rr_tick_events_def on_cpu_def)
  from a b show ?thesis by (intro conjI)
qed

text \<open>
  C9 (amended). Under RR (quantum 500), for every tick length \<open>T\<close> that divides 100 ms.
  Let \<open>p\<close>, of 1300 ms and with nothing elapsed, wait in the ready queue, the only PCB of
  its process \<open>x\<close> among those held and those admitted during the run, and let the ready
  queue be non-empty at every tick that begins with \<open>x\<close> on the CPU. Over any run of the
  main loop, with \<open>n\<close> the CPU time \<open>x\<close> has had (\<open>T\<close> times the ticks charged to it):
  \<open>n \<le> 1300\<close>; the events of \<open>x\<close> are exactly a preemption with 500 ms elapsed once \<open>n\<close>
  has reached 500, a second one with 1000 ms elapsed once \<open>n\<close> has reached 1000, and the
  completion (\<open>DONE\<close> written, PCB freed) with 1300 ms elapsed once \<open>n\<close> has reached 1300;
  and until then the one PCB of \<open>x\<close>, waiting or running, has exactly \<open>n\<close> ms elapsed, so
  the elapsed time is kept across both preemptions. Grant by grant, with \<open>t0\<close> the tick of
  the dispatch and \<open>bs\<close> the requests of the ticks that follow: a grant that starts with 0
  or 500 ms elapsed keeps \<open>p\<close> on the CPU for the next \<open>500 div T - 1\<close> ticks and, the
  ready queue being non-empty at the tick \<open>t0 + 500\<close>, ends there in a preemption: \<open>p\<close>
  goes to the tail of the queue with 500 ms more elapsed and the head of the queue gets
  the CPU. A grant that starts with 1000 ms elapsed ends at the tick \<open>t0 + 300\<close>, with
  \<open>DONE\<close> written and the PCB freed with 1300 ms elapsed. A tick leaves the PCBs that wait
  in the ready queue as they are, and a dispatch changes only the slice start.
\<close>

theorem rr_1300_preempted_twice:
  fixes T :: nat
  assumes tick: "T dvd 100"
  shows
   "(\<forall>x bs s t p.
       filter (\<lambda>q. pid q = x) (held s @ admitted (concat bs)) = [p]
       \<and> p \<in> set (ready_queue s) \<and> time_ms p = 1300 \<and> ellapsed_time_ms p = 0
       \<and> rr_contended x (of_nat T) t bs s \<longrightarrow>
       (let n = rr_cpu_ticks x (of_nat T) t bs s * T;
            s' = snd (main_loop SCHED_RR (of_nat T) t bs s)
        in n \<le> 1300
           \<and> rr_trace x (of_nat T) t bs s =
               (if 500 \<le> n then [Preempted 500] else [])
               @ (if 1000 \<le> n then [Preempted 1000] else [])
               @ (if 1300 \<le> n then [Completed 1300] else [])
           \<and> map (\<lambda>q. (time_ms q, ellapsed_time_ms q)) (pcbs_of x s') =
               (if n < 1300 then [(1300, of_nat n)] else [])))
    \<and> (\<forall>s p t0. cpu_task s = Some p \<and> time_ms p = 1300 \<and> slice_start_ms p = t0 \<longrightarrow>
    (\<forall>e bs q qs. (e = 0 \<or> e = 500) \<and> ellapsed_time_ms p = of_nat e
        \<and> length bs = 500 div T \<and> ready_queue s @ admitted (concat bs) = q # qs \<longrightarrow>
      (\<forall>k<500 div T. main_loop SCHED_RR (of_nat T) (t0 + of_nat T) (take k bs) s =
         (t0 + of_nat T + of_nat (k * T),
          s\<lparr>ready_queue := ready_queue s @ admitted (concat (take k bs)),
            cpu_task := Some (p\<lparr>ellapsed_time_ms := of_nat (e + k * T)\<rparr>)\<rparr>))
      \<and> main_loop SCHED_RR (of_nat T) (t0 + of_nat T) bs s =
         (t0 + of_nat T + 500,
          s\<lparr>ready_queue := qs @ [p\<lparr>ellapsed_time_ms := of_nat (e + 500)\<rparr>],
            cpu_task := Some (q\<lparr>slice_start_ms := t0 + 500\<rparr>)\<rparr>))
    \<and> (\<forall>bs. ellapsed_time_ms p = 1000 \<and> length bs = 300 div T \<longrightarrow>
      (\<forall>k<300 div T. main_loop SCHED_RR (of_nat T) (t0 + of_nat T) (take k bs) s =
         (t0 + of_nat T + of_nat (k * T),
          s\<lparr>ready_queue := ready_queue s @ admitted (concat (take k bs)),
            cpu_task := Some (p\<lparr>ellapsed_time_ms := of_nat (1000 + k * T)\<rparr>)\<rparr>))
      \<and> main_loop SCHED_RR (of_nat T) (t0 + of_nat T) bs s =
         (t0 + of_nat T + 300,
          rr_dispatch (t0 + 300)
           (s\<lparr>ready_queue := ready_queue s @ admitted (concat bs),
              sent := sent s @ [done_msg (p\<lparr>ellapsed_time_ms := 1300\<rparr>) (t0 + 300)],
              freed := freed s @ [p\<lparr>ellapsed_time_ms := 1300\<rparr>],
              cpu_task := None\<rparr>)))
    \<and> (\<forall>s' t evs.
         (\<exists>ys. ready_queue (main_tick SCHED_RR (of_nat T) t evs s') =
              (ready_queue s' @ admitted evs) @ ys)
         \<or> (\<exists>ys. ready_queue s' @ admitted evs \<noteq> []
              \<and> ready_queue (main_tick SCHED_RR (of_nat T) t evs s') =
                  tl (ready_queue s' @ admitted evs) @ ys
              \<and> cpu_task (main_tick SCHED_RR (of_nat T) t evs s') =
                  Some ((hd (ready_queue s' @ admitted evs))\<lparr>slice_start_ms := t\<rparr>))))"
proof (rule conjI)
  show "\<forall>x bs s t p.
       filter (\<lambda>q. pid q = x) (held s @ admitted (concat bs)) = [p]
       \<and> p \<in> set (ready_queue s) \<and> time_ms p = 1300 \<and> ellapsed_time_ms p = 0
       \<and> rr_contended x (of_nat T) t bs s \<longrightarrow>
       (let n = rr_cpu_ticks x (of_nat T) t bs s * T;
            s' = snd (main_loop SCHED_RR (of_nat T) t bs s)
        in n \<le> 1300
           \<and> rr_trace x (of_nat T) t bs s =
               (if 500 \<le> n then [Preempted 500] else [])
               @ (if 1000 \<le> n then [Preempted 1000] else [])
               @ (if 1300 \<le> n then [Completed 1300] else [])
           \<and> map (\<lambda>q. (time_ms q, ellapsed_time_ms q)) (pcbs_of x s') =
               (if n < 1300 then [(1300, of_nat n)] else []))"
  proof (intro allI impI)
    fix x :: int and bs :: "msg_event list list" and s :: sim_state and t :: u32
      and p :: pcb_t
    assume h: "filter (\<lambda>q. pid q = x) (held s @ admitted (concat bs)) = [p]
       \<and> p \<in> set (ready_queue s) \<and> time_ms p = 1300 \<and> ellapsed_time_ms p = 0
       \<and> rr_contended x (of_nat T) t bs s"
    then have one: "filter (\<lambda>q. pid q = x) (held s @ admitted (concat bs)) = [p]"
      and rq: "p \<in> set (ready_queue s)" and dur: "time_ms p = 1300"
      and el: "ellapsed_time_ms p = 0" and cont: "rr_contended x (of_nat T) t bs s"
      by blast+
    from rr_1300_run [OF tick one rq dur el cont]
    show "let n = rr_cpu_ticks x (of_nat T) t bs s * T;
            s' = snd (main_loop SCHED_RR (of_nat T) t bs s)
        in n \<le> 1300
           \<and> rr_trace x (of_nat T) t bs s =
               (if 500 \<le> n then [Preempted 500] else [])
               @ (if 1000 \<le> n then [Preempted 1000] else [])
               @ (if 1300 \<le> n then [Completed 1300] else [])
           \<and> map (\<lambda>q. (time_ms q, ellapsed_time_ms q)) (pcbs_of x s') =
               (if n < 1300 then [(1300, of_nat n)] else [])"
      unfolding Let_def rr_expected_def .
  qed
next
  show "\<forall>s p t0. cpu_task s = Some p \<and> time_ms p = 1300 \<and> slice_start_ms p = t0 \<longrightarrow>
    (\<forall>e bs q qs. (e = 0 \<or> e = 500) \<and> ellapsed_time_ms p = of_nat e
        \<and> length bs = 500 div T \<and> ready_queue s @ admitted (concat bs) = q # qs \<longrightarrow>
      (\<forall>k<500 div T. main_loop SCHED_RR (of_nat T) (t0 + of_nat T) (take k bs) s =
         (t0 + of_nat T + of_nat (k * T),
          s\<lparr>ready_queue := ready_queue s @ admitted (concat (take k bs)),
            cpu_task := Some (p\<lparr>ellapsed_time_ms := of_nat (e + k * T)\<rparr>)\<rparr>))
      \<and> main_loop SCHED_RR (of_nat T) (t0 + of_nat T) bs s =
         (t0 + of_nat T + 500,
          s\<lparr>ready_queue := qs @ [p\<lparr>ellapsed_time_ms := of_nat (e + 500)\<rparr>],
            cpu_task := Some (q\<lparr>slice_start_ms := t0 + 500\<rparr>)\<rparr>))
    \<and> (\<forall>bs. ellapsed_time_ms p = 1000 \<and> length bs = 300 div T \<longrightarrow>
      (\<forall>k<300 div T. main_loop SCHED_RR (of_nat T) (t0 + of_nat T) (take k bs) s =
         (t0 + of_nat T + of_nat (k * T),
          s\<lparr>ready_queue := ready_queue s @ admitted (concat (take k bs)),
            cpu_task := Some (p\<lparr>ellapsed_time_ms := of_nat (1000 + k * T)\<rparr>)\<rparr>))
      \<and> main_loop SCHED_RR (of_nat T) (t0 + of_nat T) bs s =
         (t0 + of_nat T + 300,
          rr_dispatch (t0 + 300)
           (s\<lparr>ready_queue := ready_queue s @ admitted (concat bs),
              sent := sent s @ [done_msg (p\<lparr>ellapsed_time_ms := 1300\<rparr>) (t0 + 300)],
              freed := freed s @ [p\<lparr>ellapsed_time_ms := 1300\<rparr>],
              cpu_task := None\<rparr>)))
    \<and> (\<forall>s' t evs.
         (\<exists>ys. ready_queue (main_tick SCHED_RR (of_nat T) t evs s') =
              (ready_queue s' @ admitted evs) @ ys)
         \<or> (\<exists>ys. ready_queue s' @ admitted evs \<noteq> []
              \<and> ready_queue (main_tick SCHED_RR (of_nat T) t evs s') =
                  tl (ready_queue s' @ admitted evs) @ ys
              \<and> cpu_task (main_tick SCHED_RR (of_nat T) t evs s') =
                  Some ((hd (ready_queue s' @ admitted evs))\<lparr>slice_start_ms := t\<rparr>)))"
  proof (intro allI impI)
    fix s :: sim_state and p :: pcb_t and t0 :: u32
    assume "cpu_task s = Some p \<and> time_ms p = 1300 \<and> slice_start_ms p = t0"
    then have cpu: "cpu_task s = Some p" and dur: "time_ms p = 1300"
      and ss: "slice_start_ms p = t0"
      by blast+
    show "(\<forall>e bs q qs. (e = 0 \<or> e = 500) \<and> ellapsed_time_ms p = of_nat e
        \<and> length bs = 500 div T \<and> ready_queue s @ admitted (concat bs) = q # qs \<longrightarrow>
      (\<forall>k<500 div T. main_loop SCHED_RR (of_nat T) (t0 + of_nat T) (take k bs) s =
         (t0 + of_nat T + of_nat (k * T),
          s\<lparr>ready_queue := ready_queue s @ admitted (concat (take k bs)),
            cpu_task := Some (p\<lparr>ellapsed_time_ms := of_nat (e + k * T)\<rparr>)\<rparr>))
      \<and> main_loop SCHED_RR (of_nat T) (t0 + of_nat T) bs s =
         (t0 + of_nat T + 500,
          s\<lparr>ready_queue := qs @ [p\<lparr>ellapsed_time_ms := of_nat (e + 500)\<rparr>],
            cpu_task := Some (q\<lparr>slice_start_ms := t0 + 500\<rparr>)\<rparr>))
    \<and> (\<forall>bs. ellapsed_time_ms p = 1000 \<and> length bs = 300 div T \<longrightarrow>
      (\<forall>k<300 div T. main_loop SCHED_RR (of_nat T) (t0 + of_nat T) (take k bs) s =
         (t0 + of_nat T + of_nat (k * T),
          s\<lparr>ready_queue := ready_queue s @ admitted (concat (take k bs)),
            cpu_task := Some (p\<lparr>ellapsed_time_ms := of_nat (1000 + k * T)\<rparr>)\<rparr>))
      \<and> main_loop SCHED_RR (of_nat T) (t0 + of_nat T) bs s =
         (t0 + of_nat T + 300,
          rr_dispatch (t0 + 300)
           (s\<lparr>ready_queue := ready_queue s @ admitted (concat bs),
              sent := sent s @ [done_msg (p\<lparr>ellapsed_time_ms := 1300\<rparr>) (t0 + 300)],
              freed := freed s @ [p\<lparr>ellapsed_time_ms := 1300\<rparr>],
              cpu_task := None\<rparr>)))
    \<and> (\<forall>s' t evs.
         (\<exists>ys. ready_queue (main_tick SCHED_RR (of_nat T) t evs s') =
              (ready_queue s' @ admitted evs) @ ys)
         \<or> (\<exists>ys. ready_queue s' @ admitted evs \<noteq> []
              \<and> ready_queue (main_tick SCHED_RR (of_nat T) t evs s') =
                  tl (ready_queue s' @ admitted evs) @ ys
              \<and> cpu_task (main_tick SCHED_RR (of_nat T) t evs s') =
                  Some ((hd (ready_queue s' @ admitted evs))\<lparr>slice_start_ms := t\<rparr>)))"
      by (rule rr_1300_grants [OF tick cpu dur ss])
  qed
qed

theorem rr_1300_preempted_twice_witness:
  "(100::nat) dvd 100
   \<and> rr_contended 1 100 0 rr_sample_run (rr_sample_state 2000)
   \<and> rr_cpu_ticks 1 100 0 rr_sample_run (rr_sample_state 2000) = 13
   \<and> rr_trace 1 100 0 rr_sample_run (rr_sample_state 2000) =
       [Preempted 500, Preempted 1000, Completed 1300]
   \<and> pcbs_of 1 (snd (main_loop SCHED_RR 100 0 rr_sample_run (rr_sample_state 2000))) = []
   \<and> main_loop SCHED_RR 100 0 rr_sample_run (rr_sample_state 2000) =
       (2400, init_state\<lparr>ready_queue := [], cpu_task := Some (job 2 2000 1000 2300 0),
          sent := [done_msg (job 1 1300 1300 2000 0) 2300],
          freed := [job 1 1300 1300 2000 0]\<rparr>)
   \<and> check_new_commands SCHED_RR (rr_sample_requests 2000) init_state = rr_sample_state 2000
   \<and> main_loop SCHED_RR 100 0 (rr_sample_requests 2000 # take 23 rr_sample_run) init_state =
       (2400, init_state\<lparr>ready_queue := [], cpu_task := Some (job 2 2000 1000 2300 0),
          sent := [done_msg (job 1 1300 1300 2000 0) 2300],
          freed := [job 1 1300 1300 2000 0]\<rparr>)
   \<and> rr_trace 1 100 0 (take 12 rr_sample_run) (rr_sample_state 2000) = [Preempted 500]
   \<and> map (\<lambda>q. (time_ms q, ellapsed_time_ms q))
       (pcbs_of 1 (snd (main_loop SCHED_RR 100 0 (take 12 rr_sample_run)
          (rr_sample_state 2000)))) = [(1300, 600)]
   \<and> main_loop SCHED_RR 100 100 (replicate 5 [])
       (init_state\<lparr>cpu_task := Some (job 1 1300 0 0 0),
                   ready_queue := [job 2 2000 0 0 0]\<rparr>) =
     (600, init_state\<lparr>ready_queue := [job 1 1300 500 0 0],
                      cpu_task := Some (job 2 2000 0 500 0)\<rparr>)
   \<and> main_loop SCHED_RR 100 1100 (replicate 5 [])
       (init_state\<lparr>cpu_task := Some (job 1 1300 500 1000 0),
                   ready_queue := [job 2 2000 500 500 0]\<rparr>) =
     (1600, init_state\<lparr>ready_queue := [job 1 1300 1000 1000 0],
                       cpu_task := Some (job 2 2000 500 1500 0)\<rparr>)
   \<and> main_loop SCHED_RR 100 2100 (replicate 3 [])
       (init_state\<lparr>cpu_task := Some (job 1 1300 1000 2000 0),
                   ready_queue := [job 2 2000 1000 1500 0]\<rparr>) =
     (2400, init_state\<lparr>ready_queue := [], cpu_task := Some (job 2 2000 1000 2300 0),
                       sent := [done_msg (job 1 1300 1300 2000 0) 2300],
                       freed := [job 1 1300 1300 2000 0]\<rparr>)"
proof -
  let ?s0 = "rr_sample_state 2000"
  let ?s1 = "init_state\<lparr>cpu_task := Some (job 1 1300 0 0 0),
                       ready_queue := [job 2 2000 0 0 0]\<rparr>"
  let ?s2 = "init_state\<lparr>cpu_task := Some (job 1 1300 500 1000 0),
                       ready_queue := [job 2 2000 500 500 0]\<rparr>"
  let ?s3 = "init_state\<lparr>cpu_task := Some (job 1 1300 1000 2000 0),
                       ready_queue := [job 2 2000 1000 1500 0]\<rparr>"
  have t: "(100::nat) dvd 100" by simp
  have ev: "rr_contended 1 100 0 rr_sample_run ?s0"
    "rr_cpu_ticks 1 100 0 rr_sample_run ?s0 = 13"
    "main_loop SCHED_RR 100 0 rr_sample_run ?s0 =
       (2400, init_state\<lparr>ready_queue := [], cpu_task := Some (job 2 2000 1000 2300 0),
          sent := [done_msg (job 1 1300 1300 2000 0) 2300],
          freed := [job 1 1300 1300 2000 0]\<rparr>)"
    "rr_contended 1 100 0 (take 12 rr_sample_run) ?s0"
    "rr_cpu_ticks 1 100 0 (take 12 rr_sample_run) ?s0 = 6"
    "check_new_commands SCHED_RR (rr_sample_requests 2000) init_state = ?s0"
    "main_loop SCHED_RR 100 0 (rr_sample_requests 2000 # take 23 rr_sample_run) init_state =
       (2400, init_state\<lparr>ready_queue := [], cpu_task := Some (job 2 2000 1000 2300 0),
          sent := [done_msg (job 1 1300 1300 2000 0) 2300],
          freed := [job 1 1300 1300 2000 0]\<rparr>)"
    by (simp_all add: rr_sample_run_def rr_sample_state_def rr_sample_requests_def run_msg_def
      handle_msg_def run_request_def new_pcb_def init_state_def job_def admitted_def
      main_tick_def run_scheduler_def rr_scheduler_def rr_update_def
      rr_dispatch_def enqueue_pcb_def dequeue_pcb_def done_msg_def TIME_SLICE_def Let_def
      rr_tick_events_def on_cpu_def)
  have h: "filter (\<lambda>q. pid q = 1) (held ?s0 @ admitted (concat rr_sample_run)) =
        [job 1 1300 0 0 0]
      \<and> job 1 1300 0 0 0 \<in> set (ready_queue ?s0)
      \<and> time_ms (job 1 1300 0 0 0) = 1300 \<and> ellapsed_time_ms (job 1 1300 0 0 0) = 0
      \<and> rr_contended 1 (of_nat 100) 0 rr_sample_run ?s0"
    using ev(1) unfolding held_def queued_def upt_NUM_QUEUES
    by (simp add: rr_sample_run_def rr_sample_state_def init_state_def job_def admitted_def)
  have h': "filter (\<lambda>q. pid q = 1) (held ?s0 @ admitted (concat (take 12 rr_sample_run))) =
        [job 1 1300 0 0 0]
      \<and> job 1 1300 0 0 0 \<in> set (ready_queue ?s0)
      \<and> time_ms (job 1 1300 0 0 0) = 1300 \<and> ellapsed_time_ms (job 1 1300 0 0 0) = 0
      \<and> rr_contended 1 (of_nat 100) 0 (take 12 rr_sample_run) ?s0"
    using ev(4) unfolding held_def queued_def upt_NUM_QUEUES
    by (simp add: rr_sample_run_def rr_sample_state_def init_state_def job_def admitted_def)
  have r1: "rr_trace 1 100 0 rr_sample_run ?s0 =
       [Preempted 500, Preempted 1000, Completed 1300]"
    "pcbs_of 1 (snd (main_loop SCHED_RR 100 0 rr_sample_run ?s0)) = []"
    using rr_1300_preempted_twice [OF t, THEN conjunct1, rule_format, OF h] ev(2)
    by (simp_all add: Let_def)
  have r2: "rr_trace 1 100 0 (take 12 rr_sample_run) ?s0 = [Preempted 500]"
    "map (\<lambda>q. (time_ms q, ellapsed_time_ms q))
       (pcbs_of 1 (snd (main_loop SCHED_RR 100 0 (take 12 rr_sample_run) ?s0))) =
       [(1300, 600)]"
    using rr_1300_preempted_twice [OF t, THEN conjunct1, rule_format, OF h'] ev(5)
    by (simp_all add: Let_def)
  have c: "cpu_task ?s1 = Some (job 1 1300 0 0 0) \<and> time_ms (job 1 1300 0 0 0) = 1300
      \<and> slice_start_ms (job 1 1300 0 0 0) = 0"
    "cpu_task ?s2 = Some (job 1 1300 500 1000 0) \<and> time_ms (job 1 1300 500 1000 0) = 1300
      \<and> slice_start_ms (job 1 1300 500 1000 0) = 1000"
    "cpu_task ?s3 = Some (job 1 1300 1000 2000 0) \<and> time_ms (job 1 1300 1000 2000 0) = 1300
      \<and> slice_start_ms (job 1 1300 1000 2000 0) = 2000"
    by (simp_all add: job_def)
  have g1: "main_loop SCHED_RR (of_nat 100) (0 + of_nat 100) (replicate 5 []) ?s1 =
      (0 + of_nat 100 + 500,
       ?s1\<lparr>ready_queue := [] @ [(job 1 1300 0 0 0)\<lparr>ellapsed_time_ms := of_nat (0 + 500)\<rparr>],
           cpu_task := Some ((job 2 2000 0 0 0)\<lparr>slice_start_ms := 0 + 500\<rparr>)\<rparr>)"
    by (rule rr_1300_preempted_twice [OF t, THEN conjunct2, rule_format, OF c(1),
          THEN conjunct1, rule_format, THEN conjunct2])
      (simp add: admitted_def job_def init_state_def)
  have g2: "main_loop SCHED_RR (of_nat 100) (1000 + of_nat 100) (replicate 5 []) ?s2 =
      (1000 + of_nat 100 + 500,
       ?s2\<lparr>ready_queue := [] @ [(job 1 1300 500 1000 0)\<lparr>ellapsed_time_ms := of_nat (500 + 500)\<rparr>],
           cpu_task := Some ((job 2 2000 500 500 0)\<lparr>slice_start_ms := 1000 + 500\<rparr>)\<rparr>)"
    by (rule rr_1300_preempted_twice [OF t, THEN conjunct2, rule_format, OF c(2),
          THEN conjunct1, rule_format, THEN conjunct2])
      (simp add: admitted_def job_def init_state_def)
  have g3: "main_loop SCHED_RR (of_nat 100) (2000 + of_nat 100) (replicate 3 []) ?s3 =
      (2000 + of_nat 100 + 300,
       rr_dispatch (2000 + 300)
        (?s3\<lparr>ready_queue := ready_queue ?s3 @ admitted (concat (replicate 3 [])),
             sent := sent ?s3 @
               [done_msg ((job 1 1300 1000 2000 0)\<lparr>ellapsed_time_ms := 1300\<rparr>) (2000 + 300)],
             freed := freed ?s3 @ [(job 1 1300 1000 2000 0)\<lparr>ellapsed_time_ms := 1300\<rparr>],
             cpu_task := None\<rparr>))"
    by (rule rr_1300_preempted_twice [OF t, THEN conjunct2, rule_format, OF c(3),
          THEN conjunct2, THEN conjunct1, rule_format, THEN conjunct2])
      (simp add: job_def admitted_def)
  have g: "main_loop SCHED_RR 100 100 (replicate 5 []) ?s1 =
     (600, init_state\<lparr>ready_queue := [job 1 1300 500 0 0],
                      cpu_task := Some (job 2 2000 0 500 0)\<rparr>)"
    "main_loop SCHED_RR 100 1100 (replicate 5 []) ?s2 =
     (1600, init_state\<lparr>ready_queue := [job 1 1300 1000 1000 0],
                       cpu_task := Some (job 2 2000 500 1500 0)\<rparr>)"
    "main_loop SCHED_RR 100 2100 (replicate 3 []) ?s3 =
     (2400, init_state\<lparr>ready_queue := [], cpu_task := Some (job 2 2000 1000 2300 0),
                       sent := [done_msg (job 1 1300 1300 2000 0) 2300],
                       freed := [job 1 1300 1300 2000 0]\<rparr>)"
    using g1 g2 g3
    by (simp_all add: admitted_def job_def init_state_def rr_dispatch_def dequeue_pcb_def
        done_msg_def)
  from t ev(1,2) r1 ev(3,6,7) r2 g show ?thesis by (intro conjI)
qed


section \<open>Elapsed time and completion\<close>

subsection \<open>Where the held PCBs come from\<close>

lemma set_queued:
  "set (queued s) = set (ready_queue s) \<union> set (levels s 0) \<union> set (levels s 1) \<union> set (levels s 2)"
  by (auto simp add: queued_def NUM_QUEUES_def numeral_3_eq_3 less_Suc_eq
      numeral_2_eq_2)

lemma set_held:
  "set (held s) = set (queued s) \<union> set_option (cpu_task s)"
  by (cases "cpu_task s") (simp_all add: held_def)

lemma same_burst_refl [simp]: "same_burst p p"
  by (simp add: same_burst_def)

lemma same_burst_upd [simp]:
  "same_burst p (q\<lparr>ellapsed_time_ms := e\<rparr>) = same_burst p q"
  "same_burst p (q\<lparr>slice_start_ms := t\<rparr>) = same_burst p q"
  "same_burst p (q\<lparr>priority_level := k\<rparr>) = same_burst p q"
  by (simp_all add: same_burst_def)

lemma in_queued:
  "p \<in> set (ready_queue s) \<Longrightarrow> p \<in> set (queued s)"
  "i < NUM_QUEUES \<Longrightarrow> p \<in> set (levels s i) \<Longrightarrow> p \<in> set (queued s)"
  by (auto simp add: queued_def)

lemma in_queued_level:
  "p \<in> set (levels s 0) \<Longrightarrow> p \<in> set (queued s)"
  "p \<in> set (levels s (Suc 0)) \<Longrightarrow> p \<in> set (queued s)"
  "p \<in> set (levels s 2) \<Longrightarrow> p \<in> set (queued s)"
  "p \<in> set (levels s (Suc (Suc 0))) \<Longrightarrow> p \<in> set (queued s)"
  by (auto simp add: queued_def NUM_QUEUES_def)

lemma carried_over_queued:
  assumes "p \<in> set (queued s)"
  shows "carried_over TICKS_MS s p" and "carried_over TICKS_MS s (p\<lparr>slice_start_ms := t\<rparr>)"
proof -
  have "same_burst p p \<and> ellapsed_time_ms p = ellapsed_time_ms p" by simp
  with assms show "carried_over TICKS_MS s p"
    unfolding carried_over_def by blast
  have "same_burst p (p\<lparr>slice_start_ms := t\<rparr>)
      \<and> ellapsed_time_ms (p\<lparr>slice_start_ms := t\<rparr>) = ellapsed_time_ms p" by simp
  with assms show "carried_over TICKS_MS s (p\<lparr>slice_start_ms := t\<rparr>)"
    unfolding carried_over_def by blast
qed

lemma carried_over_cpu:
  assumes "cpu_task s = Some c" and "\<not> time_ms c \<le> ellapsed_time_ms c + TICKS_MS"
  shows "carried_over TICKS_MS s (c\<lparr>ellapsed_time_ms := ellapsed_time_ms c + TICKS_MS\<rparr>)"
    and "carried_over TICKS_MS s
          (c\<lparr>ellapsed_time_ms := ellapsed_time_ms c + TICKS_MS, slice_start_ms := t\<rparr>)"
    and "carried_over TICKS_MS s
          (c\<lparr>ellapsed_time_ms := ellapsed_time_ms c + TICKS_MS, priority_level := k\<rparr>)"
    and "carried_over TICKS_MS s
          (c\<lparr>ellapsed_time_ms := ellapsed_time_ms c + TICKS_MS, priority_level := k,
             slice_start_ms := t\<rparr>)"
  using assms unfolding carried_over_def by (simp_all add: same_burst_def)

lemma fifo_carried:
  "q \<in> set (held (fifo_scheduler TICKS_MS t s)) \<Longrightarrow> carried_over TICKS_MS s q"
  by (cases "cpu_task s"; cases "ready_queue s")
    (auto simp add: fifo_scheduler_def fifo_update_def fifo_dispatch_def dequeue_pcb_def Let_def
      set_held set_queued split: if_splits
      intro: carried_over_queued carried_over_cpu in_queued)

lemma rr_carried:
  "q \<in> set (held (rr_scheduler TICKS_MS t s)) \<Longrightarrow> carried_over TICKS_MS s q"
  by (cases "cpu_task s"; cases "ready_queue s")
    (auto simp add: rr_scheduler_def rr_update_def rr_dispatch_def dequeue_pcb_def enqueue_pcb_def
      Let_def set_held set_queued split: if_splits
      intro: carried_over_queued carried_over_cpu in_queued)

lemma sjf_update_carried:
  "q \<in> set (held (sjf_update TICKS_MS t s)) \<Longrightarrow> carried_over TICKS_MS s q"
  by (cases "cpu_task s")
    (auto simp add: sjf_update_def Let_def set_held set_queued split: if_splits
      intro: carried_over_queued carried_over_cpu in_queued)

lemma sjf_dispatch_held:
  "q \<in> set (held (sjf_dispatch s)) \<Longrightarrow> q \<in> set (held s)"
proof (cases "cpu_task s = None \<and> ready_queue s \<noteq> []")
  case False
  then show "q \<in> set (held (sjf_dispatch s)) \<Longrightarrow> q \<in> set (held s)"
    by (simp add: sjf_dispatch_def)
next
  case True
  let ?m = "sjf_scan (ready_queue s) 0 0"
  from True have m: "?m < length (ready_queue s)"
    using sjf_scan_first_min [of 0 "ready_queue s" 0] by simp
  have sub: "set (take ?m (ready_queue s) @ drop (Suc ?m) (ready_queue s)) \<subseteq> set (ready_queue s)"
    using set_take_subset [of ?m "ready_queue s"] set_drop_subset [of "Suc ?m" "ready_queue s"]
    by auto
  assume "q \<in> set (held (sjf_dispatch s))"
  with True m sub show "q \<in> set (held s)"
    by (auto simp add: sjf_dispatch_def remove_queue_elem_def set_held set_queued)
qed

lemma sjf_carried:
  "q \<in> set (held (sjf_scheduler TICKS_MS t s)) \<Longrightarrow> carried_over TICKS_MS s q"
  by (auto simp add: sjf_scheduler_def Let_def split: if_splits
      intro: sjf_update_carried sjf_dispatch_held)

lemma mlfq_update_carried:
  "q \<in> set (held (mlfq_update TICKS_MS t s)) \<Longrightarrow> carried_over TICKS_MS s q"
  by (cases "cpu_task s")
    (auto simp add: mlfq_update_def Let_def set_held set_queued enqueue_pcb_def
      split: if_splits
      intro: carried_over_queued carried_over_cpu in_queued in_queued_level)

lemma mlfq_dispatch_held:
  "q \<in> set (held (mlfq_dispatch t s)) \<Longrightarrow>
   q \<in> set (held s) \<or> (\<exists>p \<in> set (queued s). q = p\<lparr>slice_start_ms := t\<rparr>)"
proof (cases "cpu_task s")
  case (Some c)
  then show "q \<in> set (held (mlfq_dispatch t s)) \<Longrightarrow> ?thesis"
    by (simp add: mlfq_dispatch_def)
next
  case None
  assume q: "q \<in> set (held (mlfq_dispatch t s))"
  from mlfq_pick_cases [of t s] show ?thesis
  proof
    assume "mlfq_pick t 0 s = s \<and> (\<forall>j<NUM_QUEUES. levels s j = [])"
    with q None show ?thesis by (simp add: mlfq_dispatch_def)
  next
    assume "\<exists>k q qs. k < NUM_QUEUES \<and> (\<forall>j<k. levels s j = []) \<and> levels s k = q # qs \<and>
      mlfq_pick t 0 s =
        s\<lparr>levels := (levels s)(k := qs), cpu_task := Some (q\<lparr>slice_start_ms := t\<rparr>)\<rparr>"
    then obtain k h qs where k: "k < NUM_QUEUES" and lk: "levels s k = h # qs"
      and eq: "mlfq_pick t 0 s =
        s\<lparr>levels := (levels s)(k := qs), cpu_task := Some (h\<lparr>slice_start_ms := t\<rparr>)\<rparr>"
      by blast
    from k lk have hq: "h \<in> set (queued s)" by (auto intro: in_queued)
    from k lk have sub: "set qs \<subseteq> set (queued s)" by (auto intro: in_queued)
    from q None eq have "q = h\<lparr>slice_start_ms := t\<rparr> \<or> q \<in> set (queued s)"
      using sub k
      by (auto simp add: mlfq_dispatch_def set_held set_queued NUM_QUEUES_def split: if_splits)
    with hq show ?thesis by (auto simp add: set_held)
  qed
qed

lemma carried_over_slice:
  "carried_over TICKS_MS s p \<Longrightarrow> carried_over TICKS_MS s (p\<lparr>slice_start_ms := t\<rparr>)"
  by (auto simp add: carried_over_def)

lemma mlfq_carried:
  assumes "q \<in> set (held (mlfq_scheduler TICKS_MS t s))"
  shows "carried_over TICKS_MS s q"
proof -
  from assms mlfq_dispatch_held [of q t "mlfq_update TICKS_MS t s"]
  consider "q \<in> set (held (mlfq_update TICKS_MS t s))"
    | p where "p \<in> set (queued (mlfq_update TICKS_MS t s))" "q = p\<lparr>slice_start_ms := t\<rparr>"
    by (auto simp add: mlfq_scheduler_def)
  then show ?thesis
  proof cases
    case 1
    then show ?thesis by (rule mlfq_update_carried)
  next
    case 2
    from 2(1) have "p \<in> set (held (mlfq_update TICKS_MS t s))" by (simp add: set_held)
    then have "carried_over TICKS_MS s p" by (rule mlfq_update_carried)
    with 2(2) show ?thesis by (simp add: carried_over_slice)
  qed
qed

lemma run_scheduler_carried:
  "scheduler \<noteq> NULL_SCHEDULER \<Longrightarrow>
   q \<in> set (held (run_scheduler scheduler TICKS_MS t s)) \<Longrightarrow> carried_over TICKS_MS s q"
  by (cases scheduler)
    (auto simp add: run_scheduler_def
      intro: fifo_carried sjf_carried rr_carried mlfq_carried)

lemma run_scheduler_logs:
  "scheduler \<noteq> NULL_SCHEDULER \<Longrightarrow>
   sent (run_scheduler scheduler TICKS_MS t s) =
     sent s @ (case cpu_task s of None \<Rightarrow> []
       | Some c \<Rightarrow> if time_ms c \<le> ellapsed_time_ms c + TICKS_MS
           then [done_msg (c\<lparr>ellapsed_time_ms := ellapsed_time_ms c + TICKS_MS\<rparr>) t] else [])
   \<and> freed (run_scheduler scheduler TICKS_MS t s) =
     freed s @ (case cpu_task s of None \<Rightarrow> []
       | Some c \<Rightarrow> if time_ms c \<le> ellapsed_time_ms c + TICKS_MS
           then [c\<lparr>ellapsed_time_ms := ellapsed_time_ms c + TICKS_MS\<rparr>] else [])"
proof -
  have pick: "sent (mlfq_pick t 0 s') = sent s' \<and> freed (mlfq_pick t 0 s') = freed s'" for s'
    using mlfq_pick_cases [of t s'] by auto
  have scan: "ready_queue s' \<noteq> [] \<Longrightarrow> sjf_scan (ready_queue s') 0 0 < length (ready_queue s')"
    for s'
    using sjf_scan_first_min [of 0 "ready_queue s'" 0] by simp
  assume "scheduler \<noteq> NULL_SCHEDULER"
  then show ?thesis
  proof (cases scheduler)
    case SCHED_FIFO
    then show ?thesis
      by (cases "cpu_task s"; cases "ready_queue s")
        (simp_all add: run_scheduler_def fifo_scheduler_def fifo_update_def fifo_dispatch_def
          dequeue_pcb_def Let_def)
  next
    case SCHED_SJF
    then show ?thesis
      using scan [of s]
      by (cases "cpu_task s"; cases "ready_queue s")
        (simp_all add: run_scheduler_def sjf_scheduler_def sjf_update_def sjf_dispatch_def
          remove_queue_elem_def Let_def)
  next
    case SCHED_RR
    then show ?thesis
      by (cases "cpu_task s"; cases "ready_queue s")
        (simp_all add: run_scheduler_def rr_scheduler_def rr_update_def rr_dispatch_def
          dequeue_pcb_def enqueue_pcb_def Let_def)
  next
    case SCHED_MLFQ
    then show ?thesis
      by (cases "cpu_task s")
        (simp_all add: run_scheduler_def mlfq_scheduler_def mlfq_update_def mlfq_dispatch_def
          pick Let_def)
  qed simp
qed

lemma run_request_queued:
  "q \<in> set (queued (run_request scheduler mem fd msg s)) \<Longrightarrow>
   q \<in> set (queued s) \<or> ellapsed_time_ms q = 0"
  by (cases mem)
    (auto simp add: run_request_def new_pcb_def enqueue_mlfq_def enqueue_pcb_def Let_def
      set_queued split: if_splits)

lemma check_new_commands_queued:
  "q \<in> set (queued (check_new_commands scheduler evs s)) \<Longrightarrow>
   q \<in> set (queued s) \<or> ellapsed_time_ms q = 0"
proof (induction evs arbitrary: s)
  case Nil
  then show ?case by simp
next
  case (Cons ev evs)
  obtain mem fd msg where ev: "ev = (mem, fd, msg)" by (cases ev)
  from Cons.prems Cons.IH [of "handle_msg scheduler mem fd msg s"]
  have "q \<in> set (queued (handle_msg scheduler mem fd msg s)) \<or> ellapsed_time_ms q = 0"
    by (simp add: ev)
  then show ?case
    using run_request_queued [of q scheduler mem fd msg s]
    by (auto simp add: handle_msg_def split: if_splits)
qed

subsection \<open>The array of tiers is never indexed out of range\<close>

lemma mlfq_update_level_bound:
  assumes "\<forall>p \<in> set (held s). priority_level p < NUM_QUEUES"
  shows "(\<forall>p \<in> set (held (mlfq_update TICKS_MS t s)). priority_level p < NUM_QUEUES)
    \<and> (\<forall>i. NUM_QUEUES \<le> i \<longrightarrow> levels (mlfq_update TICKS_MS t s) i = levels s i)"
proof (cases "cpu_task s")
  case None
  with assms show ?thesis by (simp add: mlfq_update_def)
next
  case (Some c)
  with assms have "priority_level c < 3" by (simp add: set_held NUM_QUEUES_def)
  then consider "priority_level c = 0" | "priority_level c = 1" | "priority_level c = 2"
    by linarith
  then show ?thesis
    using assms Some
    by cases
      (auto simp add: mlfq_update_def Let_def set_held set_queued enqueue_pcb_def
        NUM_QUEUES_def numeral_2_eq_2 [symmetric] split: if_splits)
qed

lemma mlfq_dispatch_level_bound:
  assumes "\<forall>p \<in> set (held s). priority_level p < NUM_QUEUES"
  shows "(\<forall>p \<in> set (held (mlfq_dispatch t s)). priority_level p < NUM_QUEUES)
    \<and> (\<forall>i. NUM_QUEUES \<le> i \<longrightarrow> levels (mlfq_dispatch t s) i = levels s i)"
proof
  show "\<forall>p \<in> set (held (mlfq_dispatch t s)). priority_level p < NUM_QUEUES"
  proof
    fix q assume "q \<in> set (held (mlfq_dispatch t s))"
    from mlfq_dispatch_held [OF this] assms show "priority_level q < NUM_QUEUES"
      by (auto simp add: set_held)
  qed
  show "\<forall>i. NUM_QUEUES \<le> i \<longrightarrow> levels (mlfq_dispatch t s) i = levels s i"
    using mlfq_pick_cases [of t s]
    by (cases "cpu_task s") (auto simp add: mlfq_dispatch_def)
qed

lemma mlfq_scheduler_level_bound:
  assumes "\<forall>p \<in> set (held s). priority_level p < NUM_QUEUES"
  shows "(\<forall>p \<in> set (held (mlfq_scheduler TICKS_MS t s)). priority_level p < NUM_QUEUES)
    \<and> (\<forall>i. NUM_QUEUES \<le> i \<longrightarrow> levels (mlfq_scheduler TICKS_MS t s) i = levels s i)"
proof -
  note u = mlfq_update_level_bound [OF assms, of TICKS_MS t]
  from u have "\<forall>p \<in> set (held (mlfq_update TICKS_MS t s)). priority_level p < NUM_QUEUES"
    by (rule conjunct1)
  from mlfq_dispatch_level_bound [OF this, of t] u show ?thesis
    by (simp add: mlfq_scheduler_def)
qed

lemma enqueue_mlfq_level_bound:
  assumes "\<forall>p \<in> set (held s). priority_level p < NUM_QUEUES"
  shows "(\<forall>p \<in> set (held (enqueue_mlfq pcb s)). priority_level p < NUM_QUEUES)
    \<and> (\<forall>i. NUM_QUEUES \<le> i \<longrightarrow> levels (enqueue_mlfq pcb s) i = levels s i)"
  using assms
  by (auto simp add: enqueue_mlfq_def Let_def set_held set_queued enqueue_pcb_def NUM_QUEUES_def)

subsection \<open>A FIFO burst that nothing interrupts\<close>

lemma fifo_keeps_running:
  "cpu_task s = Some p \<Longrightarrow>
   (\<forall>k<n. \<not> time_ms p \<le> ellapsed_time_ms p + of_nat (Suc k) * TICKS_MS) \<Longrightarrow>
   main_loop SCHED_FIFO TICKS_MS t (replicate n []) s =
     (t + of_nat n * TICKS_MS,
      s\<lparr>cpu_task := Some (p\<lparr>ellapsed_time_ms := ellapsed_time_ms p + of_nat n * TICKS_MS\<rparr>)\<rparr>)"
proof (induction n arbitrary: s p t)
  case 0
  then show ?case by (cases s) simp
next
  case (Suc n)
  let ?p1 = "p\<lparr>ellapsed_time_ms := ellapsed_time_ms p + TICKS_MS\<rparr>"
  let ?s1 = "s\<lparr>cpu_task := Some ?p1\<rparr>"
  from Suc.prems(2) have nd: "\<not> time_ms p \<le> ellapsed_time_ms p + TICKS_MS"
    by (auto dest: spec [of _ 0])
  have tick: "main_tick SCHED_FIFO TICKS_MS t [] s = ?s1"
    using Suc.prems(1) nd
    by (simp add: main_tick_def run_scheduler_def fifo_scheduler_def fifo_update_def
        fifo_dispatch_def Let_def)
  have c1: "cpu_task ?s1 = Some ?p1" by simp
  have d1: "\<forall>k<n. \<not> time_ms ?p1 \<le> ellapsed_time_ms ?p1 + of_nat (Suc k) * TICKS_MS"
  proof (intro allI impI)
    fix k assume "k < n"
    with Suc.prems(2)
    have "\<not> time_ms p \<le> ellapsed_time_ms p + of_nat (Suc (Suc k)) * TICKS_MS" by auto
    then show "\<not> time_ms ?p1 \<le> ellapsed_time_ms ?p1 + of_nat (Suc k) * TICKS_MS"
      by (simp add: algebra_simps)
  qed
  show ?case
    using Suc.IH [OF c1 d1] by (simp add: tick algebra_simps)
qed

lemma fifo_idle_segment:
  fixes T e n d :: nat
  assumes cpu: "cpu_task s = Some p" and el: "ellapsed_time_ms p = of_nat e"
    and d: "time_ms p = of_nat d" "d < 2 ^ 32" and bound: "e + n * T < d"
  shows "snd (main_loop SCHED_FIFO (of_nat T) t (replicate n []) s) =
      s\<lparr>cpu_task := Some (p\<lparr>ellapsed_time_ms := of_nat (e + n * T)\<rparr>)\<rparr>"
proof -
  have a: "\<forall>k<n. \<not> time_ms p \<le> ellapsed_time_ms p + of_nat (Suc k) * of_nat T"
  proof (intro allI impI)
    fix k assume k: "k < n"
    then have "Suc k * T \<le> n * T" by (intro mult_le_mono1) simp
    with bound have "e + Suc k * T < d" by simp
    then have "\<not> (of_nat d :: u32) \<le> of_nat (e + Suc k * T)"
      using d(2) by (rule u32_not_le_of_nat)
    then show "\<not> time_ms p \<le> ellapsed_time_ms p + of_nat (Suc k) * of_nat T"
      by (simp add: el d(1) algebra_simps)
  qed
  show ?thesis
    using fifo_keeps_running [OF cpu a, of t] by (simp add: el)
qed

lemma snd_main_loop_append:
  "snd (main_loop scheduler TICKS_MS t (as @ bs) s) =
     snd (main_loop scheduler TICKS_MS (fst (main_loop scheduler TICKS_MS t as s)) bs
       (snd (main_loop scheduler TICKS_MS t as s)))"
  by (simp add: main_loop_append)

lemma fst_main_loop:
  "fst (main_loop scheduler TICKS_MS t bs s) = t + of_nat (length bs) * TICKS_MS"
  by (induction bs arbitrary: t s) (simp_all add: algebra_simps)

lemma snd_main_loop_single:
  "snd (main_loop scheduler TICKS_MS t [evs] s) = main_tick scheduler TICKS_MS t evs s"
  by simp

lemma snd_main_loop_Cons:
  "snd (main_loop scheduler TICKS_MS t (evs # rest) s) =
     snd (main_loop scheduler TICKS_MS (t + TICKS_MS) rest (main_tick scheduler TICKS_MS t evs s))"
  by simp

subsection \<open>Bound and monotonicity of the elapsed time\<close>

text \<open>
  C2 (as stated). The elapsed time of every PCB is monotonically non-decreasing across
  ticks. The statement fails where the 32-bit counter wraps: under FIFO with a tick of
  10 ms, a \<open>RUN\<close> request for 4294967295 ms is admitted and dispatched at tick 0; after
  429496729 further ticks its PCB, still on the CPU, has 4294967290 ms elapsed, and one
  tick later the same PCB has 4 ms elapsed.
\<close>

theorem elapsed_wraps_around:
  "snd (main_loop SCHED_FIFO 10 0
      ([(Some stale_block, 3, run_msg 1 4294967295)] # replicate 429496729 []) init_state) =
     init_state\<lparr>cpu_task := Some (job 1 4294967295 4294967290 0 2)\<rparr>
   \<and> snd (main_loop SCHED_FIFO 10 0
      ([(Some stale_block, 3, run_msg 1 4294967295)] # replicate 429496729 [] @ [[]])
      init_state) =
     init_state\<lparr>cpu_task := Some (job 1 4294967295 4 0 2)\<rparr>
   \<and> \<not> ellapsed_time_ms (job 1 4294967295 4294967290 0 2)
        \<le> ellapsed_time_ms (job 1 4294967295 4 0 2)"
proof -
  let ?p = "job 1 4294967295 0 0 2"
  let ?s0 = "init_state\<lparr>cpu_task := Some ?p\<rparr>"
  have adm: "main_tick SCHED_FIFO 10 0 [(Some stale_block, 3, run_msg 1 4294967295)] init_state
      = ?s0"
    by (simp add: main_tick_def handle_msg_def run_request_def new_pcb_def enqueue_pcb_def
        run_scheduler_def
        fifo_scheduler_def fifo_update_def fifo_dispatch_def dequeue_pcb_def Let_def
        init_state_def stale_block_def run_msg_def job_def)
  have seg: "snd (main_loop SCHED_FIFO (of_nat 10) t (replicate 429496729 []) ?s0) =
      ?s0\<lparr>cpu_task := Some (?p\<lparr>ellapsed_time_ms := of_nat (0 + 429496729 * 10)\<rparr>)\<rparr>" for t
    by (rule fifo_idle_segment [where d = 4294967295]) (simp_all add: job_def)
  then have seg': "snd (main_loop SCHED_FIFO 10 t (replicate 429496729 []) ?s0) =
      init_state\<lparr>cpu_task := Some (job 1 4294967295 4294967290 0 2)\<rparr>" for t
    by (simp add: job_def)
  have a: "snd (main_loop SCHED_FIFO 10 0
      ([(Some stale_block, 3, run_msg 1 4294967295)] # replicate 429496729 []) init_state) =
     init_state\<lparr>cpu_task := Some (job 1 4294967295 4294967290 0 2)\<rparr>"
    by (simp only: snd_main_loop_Cons adm seg')
  have wrap: "main_tick SCHED_FIFO 10 t []
      (init_state\<lparr>cpu_task := Some (job 1 4294967295 4294967290 0 2)\<rparr>) =
      init_state\<lparr>cpu_task := Some (job 1 4294967295 4 0 2)\<rparr>" for t
    by (simp add: main_tick_def run_scheduler_def fifo_scheduler_def fifo_update_def
        fifo_dispatch_def Let_def init_state_def job_def)
  have b: "snd (main_loop SCHED_FIFO 10 0
      ([(Some stale_block, 3, run_msg 1 4294967295)] # replicate 429496729 [] @ [[]])
      init_state) =
     init_state\<lparr>cpu_task := Some (job 1 4294967295 4 0 2)\<rparr>"
    by (simp only: snd_main_loop_Cons adm snd_main_loop_append seg' wrap main_loop.simps(1)
        snd_conv)
  have c: "\<not> ellapsed_time_ms (job 1 4294967295 4294967290 0 2)
        \<le> ellapsed_time_ms (job 1 4294967295 4 0 2)"
    by (simp add: job_def)
  from a b c show ?thesis by (intro conjI)
qed

text \<open>
  C2 (amended). For each of the four policies, if every queued PCB has
  \<open>ellapsed_time_ms \<le> time_ms\<close> before an invocation, then every PCB held by a queue or the
  CPU slot after it has \<open>ellapsed_time_ms \<le> time_ms\<close>, and admissions keep the bound. If
  adding one tick to the elapsed time of the running PCB does not exceed \<open>2^32 - 1\<close>, every
  PCB held afterwards is a PCB held before, of the same burst, with an elapsed time that
  did not decrease. A running PCB whose elapsed time reaches its duration in this
  invocation gets its \<open>DONE\<close> message written and is freed in the same invocation, and
  the PCBs held afterwards all come from the queues.
\<close>

theorem elapsed_bounded_and_monotone:
  assumes sch: "scheduler \<noteq> NULL_SCHEDULER"
    and inv: "\<forall>p \<in> set (queued s). ellapsed_time_ms p \<le> time_ms p"
  shows
   "(\<forall>q \<in> set (held (run_scheduler scheduler TICKS_MS t s)).
        ellapsed_time_ms q \<le> time_ms q)
    \<and> ((\<forall>c. cpu_task s = Some c \<longrightarrow>
           unat (ellapsed_time_ms c) + unat TICKS_MS < 2 ^ 32) \<longrightarrow>
        (\<forall>q \<in> set (held (run_scheduler scheduler TICKS_MS t s)).
           \<exists>p \<in> set (held s). same_burst p q \<and> ellapsed_time_ms p \<le> ellapsed_time_ms q))
    \<and> (\<forall>c. cpu_task s = Some c \<and> time_ms c \<le> ellapsed_time_ms c + TICKS_MS \<longrightarrow>
        sent (run_scheduler scheduler TICKS_MS t s) =
          sent s @ [done_msg (c\<lparr>ellapsed_time_ms := ellapsed_time_ms c + TICKS_MS\<rparr>) t]
        \<and> freed (run_scheduler scheduler TICKS_MS t s) =
          freed s @ [c\<lparr>ellapsed_time_ms := ellapsed_time_ms c + TICKS_MS\<rparr>]
        \<and> (\<forall>q \<in> set (held (run_scheduler scheduler TICKS_MS t s)).
             \<exists>p \<in> set (queued s). same_burst p q
                \<and> ellapsed_time_ms q = ellapsed_time_ms p))
    \<and> (\<forall>evs. \<forall>q \<in> set (queued (check_new_commands scheduler evs s)).
          ellapsed_time_ms q \<le> time_ms q)"
proof -
  let ?s' = "run_scheduler scheduler TICKS_MS t s"
  have co: "carried_over TICKS_MS s q" if "q \<in> set (held ?s')" for q
    using sch that by (rule run_scheduler_carried)
  have bounded: "\<forall>q \<in> set (held ?s'). ellapsed_time_ms q \<le> time_ms q"
  proof
    fix q assume "q \<in> set (held ?s')"
    from co [OF this] inv show "ellapsed_time_ms q \<le> time_ms q"
      unfolding carried_over_def same_burst_def by (auto simp add: not_le less_imp_le)
  qed
  have mono: "(\<forall>c. cpu_task s = Some c \<longrightarrow>
           unat (ellapsed_time_ms c) + unat TICKS_MS < 2 ^ 32) \<longrightarrow>
        (\<forall>q \<in> set (held ?s').
           \<exists>p \<in> set (held s). same_burst p q \<and> ellapsed_time_ms p \<le> ellapsed_time_ms q)"
  proof (intro impI ballI)
    fix q
    assume novf: "\<forall>c. cpu_task s = Some c \<longrightarrow>
           unat (ellapsed_time_ms c) + unat TICKS_MS < 2 ^ 32"
    assume "q \<in> set (held ?s')"
    from co [OF this] consider
      p where "p \<in> set (queued s)" "same_burst p q" "ellapsed_time_ms q = ellapsed_time_ms p"
      | c where "cpu_task s = Some c" "same_burst c q"
          "ellapsed_time_ms q = ellapsed_time_ms c + TICKS_MS"
      unfolding carried_over_def by blast
    then show "\<exists>p \<in> set (held s). same_burst p q \<and> ellapsed_time_ms p \<le> ellapsed_time_ms q"
    proof cases
      case 1
      then have "p \<in> set (held s)" by (simp add: set_held)
      with 1 show ?thesis by auto
    next
      case 2
      from 2(1) novf have "unat (ellapsed_time_ms c) + unat TICKS_MS < 2 ^ 32" by simp
      then have "ellapsed_time_ms c \<le> ellapsed_time_ms c + TICKS_MS"
        by (simp add: no_olen_add_nat)
      moreover from 2(1) have "c \<in> set (held s)" by (simp add: set_held)
      ultimately show ?thesis using 2 by auto
    qed
  qed
  have fin: "\<forall>c. cpu_task s = Some c \<and> time_ms c \<le> ellapsed_time_ms c + TICKS_MS \<longrightarrow>
        sent ?s' =
          sent s @ [done_msg (c\<lparr>ellapsed_time_ms := ellapsed_time_ms c + TICKS_MS\<rparr>) t]
        \<and> freed ?s' =
          freed s @ [c\<lparr>ellapsed_time_ms := ellapsed_time_ms c + TICKS_MS\<rparr>]
        \<and> (\<forall>q \<in> set (held ?s').
             \<exists>p \<in> set (queued s). same_burst p q
                \<and> ellapsed_time_ms q = ellapsed_time_ms p)"
  proof (intro allI impI conjI ballI)
    fix c assume c: "cpu_task s = Some c \<and> time_ms c \<le> ellapsed_time_ms c + TICKS_MS"
    from run_scheduler_logs [OF sch, of TICKS_MS t s] c
    show "sent ?s' =
          sent s @ [done_msg (c\<lparr>ellapsed_time_ms := ellapsed_time_ms c + TICKS_MS\<rparr>) t]"
      and "freed ?s' = freed s @ [c\<lparr>ellapsed_time_ms := ellapsed_time_ms c + TICKS_MS\<rparr>]"
      by simp_all
    fix q assume "q \<in> set (held ?s')"
    from co [OF this] c
    show "\<exists>p \<in> set (queued s). same_burst p q \<and> ellapsed_time_ms q = ellapsed_time_ms p"
      unfolding carried_over_def by auto
  qed
  have adm: "\<forall>evs. \<forall>q \<in> set (queued (check_new_commands scheduler evs s)).
          ellapsed_time_ms q \<le> time_ms q"
  proof (intro allI ballI)
    fix evs q assume "q \<in> set (queued (check_new_commands scheduler evs s))"
    from check_new_commands_queued [OF this] inv
    show "ellapsed_time_ms q \<le> time_ms q" by auto
  qed
  from bounded mono fin adm show ?thesis by (intro conjI)
qed

theorem elapsed_bounded_and_monotone_witness:
  "SCHED_RR \<noteq> NULL_SCHEDULER
   \<and> list_all (\<lambda>p. ellapsed_time_ms p \<le> time_ms p)
        (queued (init_state\<lparr>cpu_task := Some (job 1 1300 490 1000 0),
          ready_queue := [job 2 700 0 0 0, job 3 900 0 0 0]\<rparr>))
   \<and> list_all (\<lambda>q. ellapsed_time_ms q \<le> time_ms q)
        (held (run_scheduler SCHED_RR 10 1500
          (init_state\<lparr>cpu_task := Some (job 1 1300 490 1000 0),
             ready_queue := [job 2 700 0 0 0, job 3 900 0 0 0]\<rparr>)))
   \<and> list_all (\<lambda>q. list_ex (\<lambda>p. same_burst p q \<and> ellapsed_time_ms p \<le> ellapsed_time_ms q)
          (held (init_state\<lparr>cpu_task := Some (job 1 1300 490 1000 0),
             ready_queue := [job 2 700 0 0 0, job 3 900 0 0 0]\<rparr>)))
        (held (run_scheduler SCHED_RR 10 1500
          (init_state\<lparr>cpu_task := Some (job 1 1300 490 1000 0),
             ready_queue := [job 2 700 0 0 0, job 3 900 0 0 0]\<rparr>)))
   \<and> freed (run_scheduler SCHED_FIFO 100 300
        (init_state\<lparr>cpu_task := Some (job 1 250 200 0 0)\<rparr>)) = [job 1 250 300 0 0]"
proof -
  let ?s = "init_state\<lparr>cpu_task := Some (job 1 1300 490 1000 0),
             ready_queue := [job 2 700 0 0 0, job 3 900 0 0 0]\<rparr>"
  let ?f = "init_state\<lparr>cpu_task := Some (job 1 250 200 0 0)\<rparr>"
  have sch: "SCHED_RR \<noteq> NULL_SCHEDULER" "SCHED_FIFO \<noteq> NULL_SCHEDULER" by simp_all
  have inv: "\<forall>p \<in> set (queued ?s). ellapsed_time_ms p \<le> time_ms p"
    by (simp add: set_queued init_state_def job_def)
  have invf: "\<forall>p \<in> set (queued ?f). ellapsed_time_ms p \<le> time_ms p"
    by (simp add: set_queued init_state_def)
  have novf: "\<forall>c. cpu_task ?s = Some c \<longrightarrow> unat (ellapsed_time_ms c) + unat (10 :: u32) < 2 ^ 32"
    by (simp add: job_def)
  have fin: "cpu_task ?f = Some (job 1 250 200 0 0)
      \<and> time_ms (job 1 250 200 0 0) \<le> ellapsed_time_ms (job 1 250 200 0 0) + 100"
    by (simp add: job_def)
  note rr = elapsed_bounded_and_monotone [OF sch(1) inv, of 10 1500]
  note ff = elapsed_bounded_and_monotone [OF sch(2) invf, of 100 300]
  from rr have a: "\<forall>q \<in> set (held (run_scheduler SCHED_RR 10 1500 ?s)).
        ellapsed_time_ms q \<le> time_ms q"
    by (rule conjunct1)
  from rr novf have b: "\<forall>q \<in> set (held (run_scheduler SCHED_RR 10 1500 ?s)).
        \<exists>p \<in> set (held ?s). same_burst p q \<and> ellapsed_time_ms p \<le> ellapsed_time_ms q"
    by blast
  from ff fin have "freed (run_scheduler SCHED_FIFO 100 300 ?f) =
      freed ?f @ [(job 1 250 200 0 0)\<lparr>ellapsed_time_ms :=
                    ellapsed_time_ms (job 1 250 200 0 0) + 100\<rparr>]"
    by blast
  then have c: "freed (run_scheduler SCHED_FIFO 100 300 ?f) = [job 1 250 300 0 0]"
    by (simp add: job_def init_state_def)
  from sch(1) inv a b c show ?thesis
    unfolding list_all_iff list_ex_iff by (intro conjI)
qed

subsection \<open>The tick of completion\<close>

text \<open>
  C10 (as stated). When the requested duration is not a multiple of the tick, the elapsed
  time held by the PCB when \<open>DONE\<close> is written strictly exceeds the requested duration.
  The statement fails after a wrap of the 32-bit counter: under FIFO with a tick of 10 ms,
  a \<open>RUN\<close> request for 4294967294 ms (not a multiple of 10) is dispatched at tick 0; its
  elapsed time passes 4294967290, wraps to 4, and 429496729 ticks later is exactly
  4294967294: \<open>DONE\<close> is written and the PCB freed with elapsed time equal to the duration.
\<close>

theorem done_with_elapsed_equal_to_duration:
  "snd (main_loop SCHED_FIFO 10 0
      ([(Some stale_block, 3, run_msg 1 4294967294)]
        # replicate 429496729 [] @ [[]] @ replicate 429496728 [] @ [[]])
      init_state) =
     init_state\<lparr>sent := [done_msg (job 1 4294967294 4294967294 0 2) 4294967294],
                freed := [job 1 4294967294 4294967294 0 2]\<rparr>
   \<and> \<not> unat (10 :: u32) dvd unat (time_ms (job 1 4294967294 4294967294 0 2))
   \<and> \<not> time_ms (job 1 4294967294 4294967294 0 2)
        < ellapsed_time_ms (job 1 4294967294 4294967294 0 2)"
proof -
  let ?ev = "[(Some stale_block, 3, run_msg 1 4294967294)]"
  let ?p = "job 1 4294967294 0 0 2"
  let ?s0 = "init_state\<lparr>cpu_task := Some ?p\<rparr>"
  let ?s1 = "init_state\<lparr>cpu_task := Some (job 1 4294967294 4294967290 0 2)\<rparr>"
  let ?s2 = "init_state\<lparr>cpu_task := Some (job 1 4294967294 4 0 2)\<rparr>"
  let ?s3 = "init_state\<lparr>cpu_task := Some (job 1 4294967294 4294967284 0 2)\<rparr>"
  have adm: "main_tick SCHED_FIFO 10 0 ?ev init_state = ?s0"
    by (simp add: main_tick_def handle_msg_def run_request_def new_pcb_def enqueue_pcb_def
        run_scheduler_def
        fifo_scheduler_def fifo_update_def fifo_dispatch_def dequeue_pcb_def Let_def
        init_state_def stale_block_def run_msg_def job_def)
  have "snd (main_loop SCHED_FIFO (of_nat 10) t (replicate 429496729 []) ?s0) =
      ?s0\<lparr>cpu_task := Some (?p\<lparr>ellapsed_time_ms := of_nat (0 + 429496729 * 10)\<rparr>)\<rparr>" for t
    by (rule fifo_idle_segment [where d = 4294967294]) (simp_all add: job_def)
  then have seg1: "snd (main_loop SCHED_FIFO 10 t (replicate 429496729 []) ?s0) = ?s1" for t
    by (simp add: job_def)
  have wrap: "main_tick SCHED_FIFO 10 t [] ?s1 = ?s2" for t
    by (simp add: main_tick_def run_scheduler_def fifo_scheduler_def fifo_update_def
        fifo_dispatch_def Let_def init_state_def job_def)
  have "snd (main_loop SCHED_FIFO (of_nat 10) t (replicate 429496728 []) ?s2) =
      ?s2\<lparr>cpu_task := Some ((job 1 4294967294 4 0 2)
                \<lparr>ellapsed_time_ms := of_nat (4 + 429496728 * 10)\<rparr>)\<rparr>" for t
    by (rule fifo_idle_segment [where d = 4294967294]) (simp_all add: job_def)
  then have seg2: "snd (main_loop SCHED_FIFO 10 t (replicate 429496728 []) ?s2) = ?s3" for t
    by (simp add: job_def)
  have fin: "main_tick SCHED_FIFO 10 t [] ?s3 =
      init_state\<lparr>sent := [done_msg (job 1 4294967294 4294967294 0 2) t],
                 freed := [job 1 4294967294 4294967294 0 2]\<rparr>" for t
    by (simp add: main_tick_def run_scheduler_def fifo_scheduler_def fifo_update_def
        fifo_dispatch_def dequeue_pcb_def Let_def init_state_def job_def done_msg_def)
  have time: "(8589934590 :: u32) = 4294967294" by simp
  have a: "snd (main_loop SCHED_FIFO 10 0
      (?ev # replicate 429496729 [] @ [[]] @ replicate 429496728 [] @ [[]]) init_state) =
     init_state\<lparr>sent := [done_msg (job 1 4294967294 4294967294 0 2) 4294967294],
                freed := [job 1 4294967294 4294967294 0 2]\<rparr>"
    by (simp only: snd_main_loop_Cons adm snd_main_loop_append seg1 wrap seg2 fin
        main_loop.simps(1) snd_conv fst_main_loop)
      (simp add: time)
  have b: "\<not> unat (10 :: u32) dvd unat (time_ms (job 1 4294967294 4294967294 0 2))"
    by (simp add: job_def)
  have c: "\<not> time_ms (job 1 4294967294 4294967294 0 2)
        < ellapsed_time_ms (job 1 4294967294 4294967294 0 2)"
    by (simp add: job_def)
  from a b c show ?thesis by (intro conjI)
qed

text \<open>
  C10 (amended). For each of the four policies, a running PCB completes (its \<open>DONE\<close> message
  is written and it is freed) in exactly the invocation in which its elapsed time, after
  one tick was added, is at least its requested duration; in every other invocation
  nothing is written or freed. When the requested duration is not a multiple of the tick,
  the elapsed time before the invocation is a multiple of the tick and adding one tick
  does not exceed \<open>2^32 - 1\<close>, the elapsed time of the PCB at the moment of \<open>DONE\<close> strictly
  exceeds the requested duration. Elapsed times are multiples of the tick for every held
  PCB as long as no addition wraps: admissions start at 0 and an invocation adds one tick
  to the running PCB only.
\<close>

theorem completes_when_duration_reached:
  assumes sch: "scheduler \<noteq> NULL_SCHEDULER" and cpu: "cpu_task s = Some c"
  shows
   "(time_ms c \<le> ellapsed_time_ms c + TICKS_MS \<longrightarrow>
       sent (run_scheduler scheduler TICKS_MS t s) =
         sent s @ [done_msg (c\<lparr>ellapsed_time_ms := ellapsed_time_ms c + TICKS_MS\<rparr>) t]
       \<and> freed (run_scheduler scheduler TICKS_MS t s) =
         freed s @ [c\<lparr>ellapsed_time_ms := ellapsed_time_ms c + TICKS_MS\<rparr>])
    \<and> (\<not> time_ms c \<le> ellapsed_time_ms c + TICKS_MS \<longrightarrow>
       sent (run_scheduler scheduler TICKS_MS t s) = sent s
       \<and> freed (run_scheduler scheduler TICKS_MS t s) = freed s)
    \<and> (unat TICKS_MS dvd unat (ellapsed_time_ms c)
         \<and> unat (ellapsed_time_ms c) + unat TICKS_MS < 2 ^ 32
         \<and> \<not> unat TICKS_MS dvd unat (time_ms c)
         \<and> time_ms c \<le> ellapsed_time_ms c + TICKS_MS \<longrightarrow>
       time_ms (last (freed (run_scheduler scheduler TICKS_MS t s)))
         < ellapsed_time_ms (last (freed (run_scheduler scheduler TICKS_MS t s))))
    \<and> ((\<forall>p \<in> set (held s). unat TICKS_MS dvd unat (ellapsed_time_ms p))
         \<and> unat (ellapsed_time_ms c) + unat TICKS_MS < 2 ^ 32 \<longrightarrow>
       (\<forall>q \<in> set (held (run_scheduler scheduler TICKS_MS t s)).
          unat TICKS_MS dvd unat (ellapsed_time_ms q)))
    \<and> ((\<forall>p \<in> set (queued s). unat TICKS_MS dvd unat (ellapsed_time_ms p)) \<longrightarrow>
       (\<forall>evs. \<forall>q \<in> set (queued (check_new_commands scheduler evs s)).
          unat TICKS_MS dvd unat (ellapsed_time_ms q)))"
proof -
  let ?s' = "run_scheduler scheduler TICKS_MS t s"
  let ?c' = "c\<lparr>ellapsed_time_ms := ellapsed_time_ms c + TICKS_MS\<rparr>"
  have logs: "sent ?s' = sent s @ (if time_ms c \<le> ellapsed_time_ms c + TICKS_MS
        then [done_msg ?c' t] else [])"
    "freed ?s' = freed s @ (if time_ms c \<le> ellapsed_time_ms c + TICKS_MS then [?c'] else [])"
    using run_scheduler_logs [OF sch, of TICKS_MS t s] cpu by simp_all
  have fin: "time_ms c \<le> ellapsed_time_ms c + TICKS_MS \<longrightarrow>
       sent ?s' = sent s @ [done_msg ?c' t] \<and> freed ?s' = freed s @ [?c']"
    by (simp add: logs)
  have run: "\<not> time_ms c \<le> ellapsed_time_ms c + TICKS_MS \<longrightarrow>
       sent ?s' = sent s \<and> freed ?s' = freed s"
    by (simp add: logs)
  have strict: "unat TICKS_MS dvd unat (ellapsed_time_ms c)
         \<and> unat (ellapsed_time_ms c) + unat TICKS_MS < 2 ^ 32
         \<and> \<not> unat TICKS_MS dvd unat (time_ms c)
         \<and> time_ms c \<le> ellapsed_time_ms c + TICKS_MS \<longrightarrow>
       time_ms (last (freed ?s')) < ellapsed_time_ms (last (freed ?s'))"
  proof
    assume h: "unat TICKS_MS dvd unat (ellapsed_time_ms c)
         \<and> unat (ellapsed_time_ms c) + unat TICKS_MS < 2 ^ 32
         \<and> \<not> unat TICKS_MS dvd unat (time_ms c)
         \<and> time_ms c \<le> ellapsed_time_ms c + TICKS_MS"
    then have novf: "unat (ellapsed_time_ms c) + unat TICKS_MS < 2 ^ LENGTH(32)" by simp
    have sum: "unat (ellapsed_time_ms c + TICKS_MS) =
        unat (ellapsed_time_ms c) + unat TICKS_MS"
      using novf by (simp only: unat_add_lem)
    from h have "unat TICKS_MS dvd unat (ellapsed_time_ms c + TICKS_MS)"
      unfolding sum by simp
    with h have "time_ms c \<noteq> ellapsed_time_ms c + TICKS_MS" by metis
    with h have "time_ms c < ellapsed_time_ms c + TICKS_MS" by (simp add: less_le)
    with h show "time_ms (last (freed ?s')) < ellapsed_time_ms (last (freed ?s'))"
      by (simp add: logs)
  qed
  have aligned: "(\<forall>p \<in> set (held s). unat TICKS_MS dvd unat (ellapsed_time_ms p))
         \<and> unat (ellapsed_time_ms c) + unat TICKS_MS < 2 ^ 32 \<longrightarrow>
       (\<forall>q \<in> set (held ?s'). unat TICKS_MS dvd unat (ellapsed_time_ms q))"
  proof (intro impI ballI)
    fix q
    assume h: "(\<forall>p \<in> set (held s). unat TICKS_MS dvd unat (ellapsed_time_ms p))
         \<and> unat (ellapsed_time_ms c) + unat TICKS_MS < 2 ^ 32"
    assume "q \<in> set (held ?s')"
    with sch have "carried_over TICKS_MS s q" by (rule run_scheduler_carried)
    then consider
      p where "p \<in> set (queued s)" "ellapsed_time_ms q = ellapsed_time_ms p"
      | "ellapsed_time_ms q = ellapsed_time_ms c + TICKS_MS"
      unfolding carried_over_def using cpu by auto
    then show "unat TICKS_MS dvd unat (ellapsed_time_ms q)"
    proof cases
      case 1
      then have "p \<in> set (held s)" by (simp add: set_held)
      with h 1 show ?thesis by simp
    next
      case 2
      from h have novf: "unat (ellapsed_time_ms c) + unat TICKS_MS < 2 ^ LENGTH(32)" by simp
      have sum: "unat (ellapsed_time_ms c + TICKS_MS) =
          unat (ellapsed_time_ms c) + unat TICKS_MS"
        using novf by (simp only: unat_add_lem)
      from cpu have "c \<in> set (held s)" by (simp add: set_held)
      with h have "unat TICKS_MS dvd unat (ellapsed_time_ms c)" by simp
      then show ?thesis unfolding 2 sum by simp
    qed
  qed
  have adm: "(\<forall>p \<in> set (queued s). unat TICKS_MS dvd unat (ellapsed_time_ms p)) \<longrightarrow>
       (\<forall>evs. \<forall>q \<in> set (queued (check_new_commands scheduler evs s)).
          unat TICKS_MS dvd unat (ellapsed_time_ms q))"
  proof (intro impI allI ballI)
    fix evs q
    assume h: "\<forall>p \<in> set (queued s). unat TICKS_MS dvd unat (ellapsed_time_ms p)"
    assume "q \<in> set (queued (check_new_commands scheduler evs s))"
    from check_new_commands_queued [OF this] h
    show "unat TICKS_MS dvd unat (ellapsed_time_ms q)" by auto
  qed
  from fin run strict aligned adm show ?thesis by (intro conjI)
qed

theorem completes_when_duration_reached_witness:
  "SCHED_FIFO \<noteq> NULL_SCHEDULER
   \<and> sent (run_scheduler SCHED_FIFO 100 300
        (init_state\<lparr>cpu_task := Some (job 1 250 200 0 0)\<rparr>)) =
       [done_msg (job 1 250 300 0 0) 300]
   \<and> time_ms (last (freed (run_scheduler SCHED_FIFO 100 300
        (init_state\<lparr>cpu_task := Some (job 1 250 200 0 0)\<rparr>))))
      < ellapsed_time_ms (last (freed (run_scheduler SCHED_FIFO 100 300
        (init_state\<lparr>cpu_task := Some (job 1 250 200 0 0)\<rparr>))))
   \<and> sent (run_scheduler SCHED_FIFO 100 200
        (init_state\<lparr>cpu_task := Some (job 1 250 100 0 0)\<rparr>)) = []"
proof -
  let ?f = "init_state\<lparr>cpu_task := Some (job 1 250 200 0 0)\<rparr>"
  let ?g = "init_state\<lparr>cpu_task := Some (job 1 250 100 0 0)\<rparr>"
  have sch: "SCHED_FIFO \<noteq> NULL_SCHEDULER" by simp
  have cpu: "cpu_task ?f = Some (job 1 250 200 0 0)" "cpu_task ?g = Some (job 1 250 100 0 0)"
    by simp_all
  have h: "time_ms (job 1 250 200 0 0) \<le> ellapsed_time_ms (job 1 250 200 0 0) + 100"
    "unat (100 :: u32) dvd unat (ellapsed_time_ms (job 1 250 200 0 0))
       \<and> unat (ellapsed_time_ms (job 1 250 200 0 0)) + unat (100 :: u32) < 2 ^ 32
       \<and> \<not> unat (100 :: u32) dvd unat (time_ms (job 1 250 200 0 0))
       \<and> time_ms (job 1 250 200 0 0) \<le> ellapsed_time_ms (job 1 250 200 0 0) + 100"
    "\<not> time_ms (job 1 250 100 0 0) \<le> ellapsed_time_ms (job 1 250 100 0 0) + 100"
    by (simp_all add: job_def)
  note f = completes_when_duration_reached [OF sch cpu(1), of 100 300]
  note g = completes_when_duration_reached [OF sch cpu(2), of 100 200]
  from f h(1) have "sent (run_scheduler SCHED_FIFO 100 300 ?f) =
      sent ?f @ [done_msg ((job 1 250 200 0 0)\<lparr>ellapsed_time_ms :=
                    ellapsed_time_ms (job 1 250 200 0 0) + 100\<rparr>) 300]"
    by blast
  then have a: "sent (run_scheduler SCHED_FIFO 100 300 ?f) = [done_msg (job 1 250 300 0 0) 300]"
    by (simp add: job_def init_state_def)
  from f h(2) have b: "time_ms (last (freed (run_scheduler SCHED_FIFO 100 300 ?f)))
      < ellapsed_time_ms (last (freed (run_scheduler SCHED_FIFO 100 300 ?f)))"
    by blast
  from g h(3) have "sent (run_scheduler SCHED_FIFO 100 200 ?g) = sent ?g" by blast
  then have c: "sent (run_scheduler SCHED_FIFO 100 200 ?g) = []"
    by (simp add: init_state_def)
  from sch a b c show ?thesis by (intro conjI)
qed

end
